theory Spec2Isabelle
  imports Complex_Main "HOL-Library.Word"
begin

section \<open>Data model of the AITStarKin planner\<close>

text \<open>
  The planner stores costs in C++ \<^verbatim>\<open>double\<close>s. Arithmetic on them is read as exact
  real arithmetic. Two values of the type play a role of their own in the graph searches
  and are kept apart from the ordinary numbers: \<^verbatim>\<open>std::numeric_limits<double>::max()\<close>,
  with which the Boost searches fill the distance map, and the IEEE infinity returned by
  \<^verbatim>\<open>opt_->infiniteCost()\<close> and by the heuristic of an invalid vertex.
\<close>

datatype cost = Fin real | DblMax | PosInf

text \<open>\<^verbatim>\<open>std::less<double>\<close> on these values.\<close>

fun cost_less :: "cost \<Rightarrow> cost \<Rightarrow> bool" where
  "cost_less (Fin a) (Fin b) = (a < b)"
| "cost_less (Fin a) DblMax = True"
| "cost_less (Fin a) PosInf = True"
| "cost_less DblMax PosInf = True"
| "cost_less DblMax (Fin b) = False"
| "cost_less DblMax DblMax = False"
| "cost_less PosInf b = False"

text \<open>
  \<^verbatim>\<open>boost::closed_plus<double>(inf)\<close> with \<^verbatim>\<open>inf = numeric_limits<double>::max()\<close>:
  \<^verbatim>\<open>if (a == inf) return inf; if (b == inf) return inf; return a + b;\<close>
\<close>

fun closed_plus :: "cost \<Rightarrow> cost \<Rightarrow> cost" where
  "closed_plus DblMax b = DblMax"
| "closed_plus a DblMax = DblMax"
| "closed_plus (Fin a) (Fin b) = Fin (a + b)"
| "closed_plus PosInf b = PosInf"
| "closed_plus a PosInf = PosInf"

text \<open>
  \<^verbatim>\<open>struct VertexProperty { State * state; Control * control; unsigned int control_duration;
  std::size_t id; double g{1.0e+3}; bool blacklisted{false}; }\<close>.
  A state is the value the pointer refers to; a null \<^verbatim>\<open>control\<close> pointer is \<open>None\<close>.
  The fields \<^verbatim>\<open>id\<close> and \<^verbatim>\<open>g\<close> are named \<open>vertex_id\<close> and \<open>g_value\<close>.
\<close>

record ('s, 'c) VertexProperty =
  state :: 's
  control :: "'c option"
  control_duration :: "32 word"
  vertex_id :: nat
  g_value :: cost
  blacklisted :: bool

text \<open>
  \<^verbatim>\<open>boost::adjacency_list<setS, vecS, undirectedS, VertexProperty, property<edge_weight_t, double>>\<close>:
  the vertices are a vector and a vertex descriptor is an index into it; an undirected
  edge is kept once, under its ordered pair of end points (\<open>ekey\<close>), together with its
  weight, which is what the \<^verbatim>\<open>WeightMap\<close> of the graph reads and writes.
\<close>

record ('s, 'c) GraphT =
  vertices :: "('s, 'c) VertexProperty list"
  edge_weight :: "nat \<times> nat \<Rightarrow> cost option"

definition num_vertices :: "('s, 'c) GraphT \<Rightarrow> nat" where
  "num_vertices gr = length (vertices gr)"

definition ekey :: "nat \<Rightarrow> nat \<Rightarrow> nat \<times> nat" where
  "ekey u v = (min u v, max u v)"

text \<open>
  \<^verbatim>\<open>boost::out_edges(v, g)\<close>: with \<^verbatim>\<open>setS\<close> the edges of a vertex are ordered by their
  target, and a target occurs once.
\<close>

definition out_edges :: "nat \<Rightarrow> ('s, 'c) GraphT \<Rightarrow> nat list" where
  "out_edges v gr = filter (\<lambda>w. edge_weight gr (ekey v w) \<noteq> None) [0..<num_vertices gr]"

section \<open>Graph search: computeShortestPath\<close>

text \<open>
  \<^verbatim>\<open>computeShortestPath\<close> fills a predecessor vector \<^verbatim>\<open>p\<close> and a distance vector \<^verbatim>\<open>d\<close>
  by one of two searches of the Boost Graph Library and hands both the visitor
  \<^verbatim>\<open>SimpleVertexVisitor\<close>. The state of a search, as far as the function sees it
  afterwards: the two vectors, the vertices passed to \<^verbatim>\<open>examine_vertex\<close> so far (latest
  first; the counter \<^verbatim>\<open>num_visited_nodes\<close> is the length of this list), and the vertex
  properties of the graph, which a heuristic may write to.
\<close>

record ('s, 'c) search_state =
  pmap :: "nat list"
  dmap :: "cost list"
  examined :: "nat list"
  verts :: "('s, 'c) VertexProperty list"

text \<open>
  How a search ends: by the exception \<^verbatim>\<open>FoundVertex\<close> that \<^verbatim>\<open>examine_vertex\<close> throws at
  the goal vertex, by returning when its queue is empty, or by the exception
  \<^verbatim>\<open>boost::negative_edge\<close> that both searches throw at an edge of negative weight.
\<close>

datatype ('s, 'c) search_exit =
  FoundVertex "('s, 'c) search_state"
| Exhausted "('s, 'c) search_state"
| NegativeEdge

text \<open>
  \<^verbatim>\<open>SimpleVertexVisitor::examine_vertex\<close>: count the visit, and throw if the vertex is the
  goal. The result says whether it throws.
\<close>

definition examine_vertex ::
  "nat \<Rightarrow> nat \<Rightarrow> ('s, 'c) search_state \<Rightarrow> ('s, 'c) search_state \<times> bool" where
  "examine_vertex goal_vertex u st = (st\<lparr>examined := u # examined st\<rparr>, u = goal_vertex)"

text \<open>
  \<^verbatim>\<open>boost::relax_target\<close> for the edge from \<open>u\<close> to \<open>v\<close> of weight \<open>w\<close>: if
  \<open>d[u] + w < d[v]\<close> then \<open>d[v]\<close> becomes \<open>d[u] + w\<close> and \<open>p[v]\<close> becomes \<open>u\<close>.
  \<^verbatim>\<open>boost::relax\<close> tries the edge in the other direction as well when the graph is
  undirected and the first direction gave nothing.
\<close>

definition relax_target ::
  "nat \<Rightarrow> nat \<Rightarrow> cost \<Rightarrow> ('s, 'c) search_state \<Rightarrow> ('s, 'c) search_state \<times> bool" where
  "relax_target u v w st =
     (if cost_less (closed_plus (dmap st ! u) w) (dmap st ! v)
      then (st\<lparr>pmap := (pmap st)[v := u], dmap := (dmap st)[v := closed_plus (dmap st ! u) w]\<rparr>, True)
      else (st, False))"

definition relax ::
  "nat \<Rightarrow> nat \<Rightarrow> cost \<Rightarrow> ('s, 'c) search_state \<Rightarrow> ('s, 'c) search_state \<times> bool" where
  "relax u v w st =
     (if cost_less (closed_plus (dmap st ! u) w) (dmap st ! v) then relax_target u v w st
      else if cost_less (closed_plus (dmap st ! v) w) (dmap st ! u) then relax_target v u w st
      else (st, False))"

subsection \<open>boost::dijkstra_shortest_paths\<close>

text \<open>
  Dijkstra's algorithm of the library is a breadth-first visit with a colour map and a
  queue ordered by \<open>d\<close>. \<open>Q.top()\<close> is a queued vertex of least distance; among several
  the model takes the one queued first.
\<close>

datatype color = White | Gray | Black

fun min_vertex :: "cost list \<Rightarrow> nat \<Rightarrow> nat list \<Rightarrow> nat" where
  "min_vertex d u [] = u"
| "min_vertex d u (v # vs) = min_vertex d (if cost_less (d ! v) (d ! u) then v else u) vs"

text \<open>
  One out-edge of the examined vertex \<open>u\<close>, after the test for a negative weight: a white
  target is relaxed, coloured gray and queued, whether or not the relaxation lowered its
  distance; a gray target is relaxed; a black target is left alone.
\<close>

definition dijkstra_edge ::
  "nat \<Rightarrow> nat \<Rightarrow> cost \<Rightarrow> ('s, 'c) search_state \<times> (nat \<Rightarrow> color) \<times> nat list \<Rightarrow>
   ('s, 'c) search_state \<times> (nat \<Rightarrow> color) \<times> nat list" where
  "dijkstra_edge u v w sq =
     (case sq of (st, col, q) \<Rightarrow>
        (case col v of
           White \<Rightarrow> (fst (relax_target u v w st), col(v := Gray), q @ [v])
         | Gray \<Rightarrow> (fst (relax_target u v w st), col, q)
         | Black \<Rightarrow> (st, col, q)))"

text \<open>The out-edges of \<open>u\<close> in turn; \<open>None\<close> when \<^verbatim>\<open>negative_edge\<close> is thrown.\<close>

fun dijkstra_edges ::
  "('s, 'c) GraphT \<Rightarrow> nat \<Rightarrow> nat list \<Rightarrow> ('s, 'c) search_state \<times> (nat \<Rightarrow> color) \<times> nat list \<Rightarrow>
   (('s, 'c) search_state \<times> (nat \<Rightarrow> color) \<times> nat list) option" where
  "dijkstra_edges gr u [] sq = Some sq"
| "dijkstra_edges gr u (v # vs) sq =
     (case edge_weight gr (ekey u v) of
        None \<Rightarrow> dijkstra_edges gr u vs sq
      | Some w \<Rightarrow>
          if cost_less (closed_plus (Fin 0) w) (Fin 0) then None
          else dijkstra_edges gr u vs (dijkstra_edge u v w sq))"

text \<open>The number of white vertices, by which the loop below is seen to end.\<close>

definition white_count :: "('s, 'c) GraphT \<Rightarrow> (nat \<Rightarrow> color) \<Rightarrow> nat" where
  "white_count gr col = card {v. v < num_vertices gr \<and> col v = White}"

text \<open>
  The loop \<^verbatim>\<open>while (!Q.empty())\<close> of the breadth-first visit: take a vertex of least
  distance from the queue, show it to the visitor, go through its out-edges and colour it
  black.
\<close>

function dijkstra_loop ::
  "('s, 'c) GraphT \<Rightarrow> nat \<Rightarrow> ('s, 'c) search_state \<times> (nat \<Rightarrow> color) \<times> nat list \<Rightarrow>
   ('s, 'c) search_exit" where
  "dijkstra_loop gr goal_vertex (st, col, q) =
     (case q of
        [] \<Rightarrow> Exhausted st
      | q0 # qs \<Rightarrow>
          let u = min_vertex (dmap st) q0 qs;
              (st1, found) = examine_vertex goal_vertex u st
          in if found then FoundVertex st1
             else case dijkstra_edges gr u (out_edges u gr) (st1, col, remove1 u q) of
                    None \<Rightarrow> NegativeEdge
                  | Some (st2, col2, q2) \<Rightarrow> dijkstra_loop gr goal_vertex (st2, col2(u := Black), q2))"
  by pat_completeness auto

text \<open>
  \<^verbatim>\<open>dijkstra_shortest_paths(g, s, predecessor_map(&p[0]).distance_map(&d[0]).visitor(visitor))\<close>:
  every distance starts at \<^verbatim>\<open>numeric_limits<double>::max()\<close>, every vertex is its own
  predecessor and white; the source gets distance zero, is coloured gray and queued.
\<close>

definition dijkstra_init ::
  "('s, 'c) GraphT \<Rightarrow> nat \<Rightarrow> ('s, 'c) search_state \<times> (nat \<Rightarrow> color) \<times> nat list" where
  "dijkstra_init gr s =
     (\<lparr>pmap = [0..<num_vertices gr],
       dmap = (replicate (num_vertices gr) DblMax)[s := Fin 0],
       examined = [],
       verts = vertices gr\<rparr>,
      (\<lambda>v. White)(s := Gray), [s])"

definition dijkstra_shortest_paths ::
  "('s, 'c) GraphT \<Rightarrow> nat \<Rightarrow> nat \<Rightarrow> ('s, 'c) search_exit" where
  "dijkstra_shortest_paths gr s goal_vertex = dijkstra_loop gr goal_vertex (dijkstra_init gr s)"

subsection \<open>The heuristics\<close>

text \<open>
  What the heuristics use of the planner: the validity checker \<^verbatim>\<open>si_->isValid\<close> and the
  motion cost \<^verbatim>\<open>opt_->motionCost(a, b).value()\<close> of the optimization objective.
\<close>

record 's planner_env =
  isValid :: "'s \<Rightarrow> bool"
  motionCost :: "'s \<Rightarrow> 's \<Rightarrow> cost"

text \<open>
  \<^verbatim>\<open>GenericDistanceHeuristic\<close> holds the goal vertex property and returns the motion cost
  from the state of vertex \<open>i\<close> to the state of the goal. \<^verbatim>\<open>PrecomputedCostHeuristic\<close>
  checks the state of vertex \<open>i\<close>: if it is valid the value is the \<open>g\<close> of the vertex,
  if not the vertex is marked \<open>blacklisted\<close> and the value is infinity. Both read the
  vertex through the planner (\<^verbatim>\<open>alg_->getVertex(i, thread_id_)\<close>); the model takes the
  graph they read and write to be the graph that is searched.
\<close>

datatype 's heuristic = GenericDistanceHeuristic 's | PrecomputedCostHeuristic

fun heuristic_value ::
  "'s planner_env \<Rightarrow> 's heuristic \<Rightarrow> nat \<Rightarrow> ('s, 'c) VertexProperty list \<Rightarrow>
   cost \<times> ('s, 'c) VertexProperty list" where
  "heuristic_value env (GenericDistanceHeuristic goal_state) i vs =
     (motionCost env (state (vs ! i)) goal_state, vs)"
| "heuristic_value env PrecomputedCostHeuristic i vs =
     (if isValid env (state (vs ! i)) then (g_value (vs ! i), vs)
      else (PosInf, vs[i := (vs ! i)\<lparr>blacklisted := True\<rparr>]))"

subsection \<open>boost::astar_search_tree\<close>

text \<open>
  The tree version of A* keeps no colours: its queue holds pairs of a rank and a vertex,
  and a vertex is queued again whenever an edge into it is relaxed. \<open>Q.top()\<close> is a pair
  of least rank; among several the model takes the one queued first.
\<close>

fun min_rank :: "cost \<times> nat \<Rightarrow> (cost \<times> nat) list \<Rightarrow> cost \<times> nat" where
  "min_rank x [] = x"
| "min_rank x (y # ys) = min_rank (if cost_less (fst y) (fst x) then y else x) ys"

text \<open>
  One out-edge from the examined vertex \<open>v\<close> to \<open>w\<close>, after the test for a negative
  weight: \<^verbatim>\<open>relax\<close>; if it lowered a distance, the rank of \<open>w\<close> is
  \<open>d[w] + h(w)\<close>, and \<open>w\<close> is queued with it. The cost map that the library also
  fills is not read by \<^verbatim>\<open>computeShortestPath\<close> and is left out.
\<close>

definition astar_edge ::
  "'s planner_env \<Rightarrow> 's heuristic \<Rightarrow> nat \<Rightarrow> nat \<Rightarrow> cost \<Rightarrow>
   ('s, 'c) search_state \<times> (cost \<times> nat) list \<Rightarrow> ('s, 'c) search_state \<times> (cost \<times> nat) list" where
  "astar_edge env h v w e_weight sq =
     (case sq of (st, q) \<Rightarrow>
        (case relax v w e_weight st of
           (st1, decreased) \<Rightarrow>
             if decreased then
               (case heuristic_value env h w (verts st1) of
                  (hw, vs) \<Rightarrow> (st1\<lparr>verts := vs\<rparr>, q @ [(closed_plus (dmap st1 ! w) hw, w)]))
             else (st1, q)))"

fun astar_edges ::
  "'s planner_env \<Rightarrow> 's heuristic \<Rightarrow> ('s, 'c) GraphT \<Rightarrow> nat \<Rightarrow> nat list \<Rightarrow>
   ('s, 'c) search_state \<times> (cost \<times> nat) list \<Rightarrow>
   (('s, 'c) search_state \<times> (cost \<times> nat) list) option" where
  "astar_edges env h gr v [] sq = Some sq"
| "astar_edges env h gr v (w # ws) sq =
     (case edge_weight gr (ekey v w) of
        None \<Rightarrow> astar_edges env h gr v ws sq
      | Some e_weight \<Rightarrow>
          if cost_less e_weight (Fin 0) then None
          else astar_edges env h gr v ws (astar_edge env h v w e_weight sq))"

text \<open>
  The loop \<^verbatim>\<open>while (!Q.empty())\<close> of the tree search. Nothing in it bounds the number
  of rounds, so the loop is a partial function: \<open>None\<close> is a search that never ends.
  That it ends on every graph is proved further down.
\<close>

partial_function (option) astar_loop ::
  "'s planner_env \<Rightarrow> 's heuristic \<Rightarrow> ('s, 'c) GraphT \<Rightarrow> nat \<Rightarrow>
   ('s, 'c) search_state \<times> (cost \<times> nat) list \<Rightarrow> ('s, 'c) search_exit option" where
  "astar_loop env h gr goal_vertex sq =
     (case sq of (st, q) \<Rightarrow>
        (case q of
           [] \<Rightarrow> Some (Exhausted st)
         | q0 # qs \<Rightarrow>
             (case min_rank q0 qs of
                (v_rank, v) \<Rightarrow>
                  (case examine_vertex goal_vertex v st of
                     (st1, found) \<Rightarrow>
                       if found then Some (FoundVertex st1)
                       else (case astar_edges env h gr v (out_edges v gr) (st1, remove1 (v_rank, v) q) of
                               None \<Rightarrow> Some NegativeEdge
                             | Some sq2 \<Rightarrow> astar_loop env h gr goal_vertex sq2)))))"

text \<open>
  \<^verbatim>\<open>astar_search_tree(g, s, h, predecessor_map(&p[0]).distance_map(&d[0]).visitor(visitor))\<close>:
  distances and predecessors start as in Dijkstra's algorithm, the source gets distance
  zero and is queued with the rank \<open>h(s)\<close>.
\<close>

definition astar_init ::
  "'s planner_env \<Rightarrow> 's heuristic \<Rightarrow> ('s, 'c) GraphT \<Rightarrow> nat \<Rightarrow>
   ('s, 'c) search_state \<times> (cost \<times> nat) list" where
  "astar_init env h gr s =
     (case heuristic_value env h s (vertices gr) of
        (hs, vs) \<Rightarrow>
          (\<lparr>pmap = [0..<num_vertices gr],
            dmap = (replicate (num_vertices gr) DblMax)[s := Fin 0],
            examined = [],
            verts = vs\<rparr>,
           [(hs, s)]))"

definition astar_search_tree ::
  "'s planner_env \<Rightarrow> 's heuristic \<Rightarrow> ('s, 'c) GraphT \<Rightarrow> nat \<Rightarrow> nat \<Rightarrow> ('s, 'c) search_exit option" where
  "astar_search_tree env h gr s goal_vertex = astar_loop env h gr goal_vertex (astar_init env h gr s)"

subsection \<open>computeShortestPath\<close>

text \<open>
  The statement in the walk along the predecessors that is guarded by
  \<^verbatim>\<open>use_full_collision_check\<close> and \<^verbatim>\<open>g[v].blacklisted\<close>: every out-edge of \<open>v\<close> gets
  the weight \<^verbatim>\<open>opt_->infiniteCost().value()\<close>.
\<close>

definition mark_out_edges :: "nat \<Rightarrow> ('s, 'c) GraphT \<Rightarrow> ('s, 'c) GraphT" where
  "mark_out_edges v gr =
     gr\<lparr>edge_weight := fold (\<lambda>w m. m(ekey v w := Some PosInf)) (out_edges v gr) (edge_weight gr)\<rparr>"

text \<open>
  The walk \<^verbatim>\<open>for (vertex_descriptor v = goal_vertex;; v = p[v])\<close>. It ends at a vertex
  that is its own predecessor and at no other place, so it is a partial function. Reading
  \<^verbatim>\<open>p[v]\<close> outside the vector is undefined behaviour, which the model does not tell
  apart from a walk that never ends.
\<close>

partial_function (option) reconstruct ::
  "nat list \<Rightarrow> bool \<Rightarrow> nat \<Rightarrow> ('s, 'c) GraphT \<times> nat list \<Rightarrow> (('s, 'c) GraphT \<times> nat list) option" where
  "reconstruct p use_full_collision_check v acc =
     (case acc of (gr, shortest_path) \<Rightarrow>
        if v < length p then
          (let gr1 = (if use_full_collision_check \<and> blacklisted (vertices gr ! v)
                      then mark_out_edges v gr else gr);
               shortest_path1 = v # shortest_path
           in if p ! v = v then Some (gr1, shortest_path1)
              else reconstruct p use_full_collision_check (p ! v) (gr1, shortest_path1))
        else None)"

text \<open>The loop \<^verbatim>\<open>for (auto vd : vertices(g)) g[vd].g = d[vd];\<close>\<close>

definition store_distances ::
  "cost list \<Rightarrow> ('s, 'c) VertexProperty list \<Rightarrow> ('s, 'c) VertexProperty list" where
  "store_distances d vs = map (\<lambda>vd. (vs ! vd)\<lparr>g_value := d ! vd\<rparr>) [0..<length vs]"

text \<open>
  The search that \<^verbatim>\<open>computeShortestPath\<close> runs inside its \<^verbatim>\<open>try\<close> block. The constant
  \<^verbatim>\<open>use_astar_hueristic_\<close> is false, so a heuristic precomputation is Dijkstra's
  algorithm.
\<close>

definition run_search ::
  "'s planner_env \<Rightarrow> ('s, 'c) GraphT \<Rightarrow> 's heuristic \<Rightarrow> nat \<Rightarrow> nat \<Rightarrow> bool \<Rightarrow>
   ('s, 'c) search_exit option" where
  "run_search env gr h start_vertex goal_vertex precompute_heuristic =
     (if precompute_heuristic then Some (dijkstra_shortest_paths gr start_vertex goal_vertex)
      else astar_search_tree env h gr start_vertex goal_vertex)"

text \<open>
  What a call gives back: the list it returns together with the graph as the call leaves
  it, or an exception that leaves the function.
\<close>

datatype ('s, 'c) call_result =
  Returned "nat list" "('s, 'c) GraphT"
| Thrown_negative_edge

text \<open>
  \<^verbatim>\<open>computeShortestPath\<close>. A start or goal vertex outside the graph is undefined
  behaviour (\<open>None\<close>, like a call that does not return). If the search returns, the empty
  list is returned. If it throws \<^verbatim>\<open>FoundVertex\<close>, the handler stores the distances in
  the \<open>g\<close> fields and walks the predecessors from the goal. No handler catches
  \<^verbatim>\<open>negative_edge\<close>.
\<close>

definition computeShortestPath ::
  "'s planner_env \<Rightarrow> ('s, 'c) GraphT \<Rightarrow> 's heuristic \<Rightarrow> nat \<Rightarrow> nat \<Rightarrow> bool \<Rightarrow> bool \<Rightarrow>
   ('s, 'c) call_result option" where
  "computeShortestPath env gr h start_vertex goal_vertex precompute_heuristic use_full_collision_check =
     (if start_vertex < num_vertices gr \<and> goal_vertex < num_vertices gr then
        (case run_search env gr h start_vertex goal_vertex precompute_heuristic of
           None \<Rightarrow> None
         | Some NegativeEdge \<Rightarrow> Some Thrown_negative_edge
         | Some (Exhausted st) \<Rightarrow> Some (Returned [] (gr\<lparr>vertices := verts st\<rparr>))
         | Some (FoundVertex st) \<Rightarrow>
             (case reconstruct (pmap st) use_full_collision_check goal_vertex
                     (gr\<lparr>vertices := store_distances (dmap st) (verts st)\<rparr>, []) of
                None \<Rightarrow> None
              | Some (gr2, shortest_path) \<Rightarrow> Some (Returned shortest_path gr2)))
      else None)"

subsection \<open>Well-formed graphs and the invariant of the two vectors\<close>

text \<open>
  The planner weighs an edge by a distance or a motion cost, or by the infinite cost: no
  weight is negative. This is the precondition of both searches of the library.
\<close>

definition nonneg_weights :: "('s, 'c) GraphT \<Rightarrow> bool" where
  "nonneg_weights gr \<longleftrightarrow> (\<forall>e w. edge_weight gr e = Some w \<longrightarrow> \<not> cost_less w (Fin 0))"

text \<open>The predecessor links of the vertices that are not their own predecessor.\<close>

definition pred_rel :: "nat list \<Rightarrow> (nat \<times> nat) set" where
  "pred_rel p = {(p ! v, v) | v. v < length p \<and> p ! v \<noteq> v}"

text \<open>
  What both searches keep true of \<open>p\<close> and \<open>d\<close>: the vectors have the same length and
  \<open>p\<close> stays inside it, no distance is the IEEE infinity, a vertex that has a predecessor
  other than itself has a finite distance that is not less than the distance of the
  predecessor, and the predecessor links have no cycle.
\<close>

definition pd_inv :: "nat list \<Rightarrow> cost list \<Rightarrow> bool" where
  "pd_inv p d \<longleftrightarrow>
     length d = length p \<and>
     (\<forall>v < length p. p ! v < length p) \<and>
     (\<forall>v < length p. d ! v \<noteq> PosInf) \<and>
     (\<forall>v < length p. p ! v \<noteq> v \<longrightarrow> d ! v \<noteq> DblMax \<and> \<not> cost_less (d ! v) (d ! (p ! v))) \<and>
     acyclic (pred_rel p)"

text \<open>
  What both searches keep true of the source \<open>s\<close>: it is its own predecessor at distance
  zero, no distance is negative, and every other vertex whose distance has been set has a
  predecessor other than itself.
\<close>

definition root_inv :: "nat \<Rightarrow> nat list \<Rightarrow> cost list \<Rightarrow> bool" where
  "root_inv s p d \<longleftrightarrow>
     s < length p \<and> p ! s = s \<and> d ! s = Fin 0 \<and>
     (\<forall>v < length p. \<not> cost_less (d ! v) (Fin 0)) \<and>
     (\<forall>v < length p. v \<noteq> s \<and> d ! v \<noteq> DblMax \<longrightarrow> p ! v \<noteq> v)"

text \<open>
  What holds of the state of a search of the graph \<open>gr\<close> from \<open>s\<close> at every moment: the
  two invariants of the vectors, which are as long as the graph has vertices, as is the
  vector of vertex properties.
\<close>

definition search_inv :: "('s, 'c) GraphT \<Rightarrow> nat \<Rightarrow> ('s, 'c) search_state \<Rightarrow> bool" where
  "search_inv gr s st \<longleftrightarrow>
     pd_inv (pmap st) (dmap st) \<and> root_inv s (pmap st) (dmap st) \<and>
     length (pmap st) = num_vertices gr \<and> length (verts st) = num_vertices gr"

text \<open>
  What holds at the end of a search for \<open>goal_vertex\<close>: \<^verbatim>\<open>FoundVertex\<close> is thrown with
  the goal among the examined vertices, the search returns with the goal not among them,
  and \<^verbatim>\<open>negative_edge\<close> is thrown only if the graph has a negative weight.
\<close>

definition exit_inv :: "('s, 'c) GraphT \<Rightarrow> nat \<Rightarrow> nat \<Rightarrow> ('s, 'c) search_exit \<Rightarrow> bool" where
  "exit_inv gr s goal_vertex ex =
     (case ex of
        FoundVertex st \<Rightarrow> search_inv gr s st \<and> goal_vertex \<in> set (examined st)
      | Exhausted st \<Rightarrow> search_inv gr s st \<and> goal_vertex \<notin> set (examined st)
      | NegativeEdge \<Rightarrow> \<not> nonneg_weights gr)"

text \<open>A list in which every element is the predecessor of the next one.\<close>

definition linked :: "nat list \<Rightarrow> nat list \<Rightarrow> bool" where
  "linked p xs \<longleftrightarrow> (\<forall>i. Suc i < length xs \<longrightarrow> p ! (xs ! Suc i) = xs ! i)"

text \<open>
  The edge weights after a walk that went through the vertices \<open>chain\<close>, in terms of the
  graph before it: the out-edges of the blacklisted vertices of the chain are infinite if
  \<open>full\<close> is set, all other weights are as before.
\<close>

definition marked_weights ::
  "bool \<Rightarrow> nat list \<Rightarrow> ('s, 'c) GraphT \<Rightarrow> nat \<times> nat \<Rightarrow> cost option" where
  "marked_weights full chain gr e =
     (if full \<and> (\<exists>x \<in> set chain. blacklisted (vertices gr ! x) \<and> e \<in> ekey x ` set (out_edges x gr))
      then Some PosInf else edge_weight gr e)"

text \<open>
  What a heuristic may do to the vertex properties \<open>vs\<close>, giving \<open>vs'\<close>: nothing but set
  the \<open>blacklisted\<close> flag of a vertex whose state is not valid.
\<close>

definition verts_frame ::
  "'s planner_env \<Rightarrow> ('s, 'c) VertexProperty list \<Rightarrow> ('s, 'c) VertexProperty list \<Rightarrow> bool" where
  "verts_frame env vs vs' \<longleftrightarrow>
     length vs' = length vs \<and>
     (\<forall>i < length vs.
        state (vs' ! i) = state (vs ! i) \<and> control (vs' ! i) = control (vs ! i) \<and>
        control_duration (vs' ! i) = control_duration (vs ! i) \<and>
        vertex_id (vs' ! i) = vertex_id (vs ! i) \<and> g_value (vs' ! i) = g_value (vs ! i) \<and>
        (blacklisted (vs ! i) \<longrightarrow> blacklisted (vs' ! i)) \<and>
        (blacklisted (vs' ! i) \<longrightarrow> blacklisted (vs ! i) \<or> \<not> isValid env (state (vs ! i))))"

text \<open>
  What holds of a vertex \<open>v\<close> that the tree search has queued: its distance has been set,
  and if the heuristic is the precomputed cost and the state of \<open>v\<close> is not valid, then
  \<open>v\<close> is blacklisted.
\<close>

definition checked ::
  "'s planner_env \<Rightarrow> 's heuristic \<Rightarrow> ('s, 'c) search_state \<Rightarrow> nat \<Rightarrow> bool" where
  "checked env h st v \<longleftrightarrow>
     v < length (verts st) \<and> dmap st ! v \<noteq> DblMax \<and>
     (h = PrecomputedCostHeuristic \<and> \<not> isValid env (state (verts st ! v)) \<longrightarrow>
        blacklisted (verts st ! v))"

definition frame_inv ::
  "'s planner_env \<Rightarrow> 's heuristic \<Rightarrow> ('s, 'c) VertexProperty list \<Rightarrow>
   ('s, 'c) search_state \<Rightarrow> nat list \<Rightarrow> bool" where
  "frame_inv env h vs0 st queued \<longleftrightarrow>
     verts_frame env vs0 (verts st) \<and>
     (\<forall>v \<in> set queued \<union> set (examined st). checked env h st v)"

subsection \<open>Why the tree search ends\<close>

text \<open>
  The weight of a list of vertices read as a path: the sum of the finite, non-negative
  weights of the edges between neighbours in the list.
\<close>

definition path_step :: "('s, 'c) GraphT \<Rightarrow> nat \<Rightarrow> nat \<Rightarrow> real" where
  "path_step gr u v = (case edge_weight gr (ekey u v) of Some (Fin b) \<Rightarrow> max 0 b | _ \<Rightarrow> 0)"

fun path_weight :: "('s, 'c) GraphT \<Rightarrow> nat list \<Rightarrow> real" where
  "path_weight gr (x # y # zs) = path_step gr x y + path_weight gr (y # zs)"
| "path_weight gr [x] = 0"
| "path_weight gr [] = 0"

text \<open>The lists of distinct vertices of a graph, and their weights: finitely many.\<close>

definition simple_paths :: "('s, 'c) GraphT \<Rightarrow> nat list set" where
  "simple_paths gr = {xs. distinct xs \<and> set xs \<subseteq> {..<num_vertices gr}}"

definition path_weights :: "('s, 'c) GraphT \<Rightarrow> real set" where
  "path_weights gr = path_weight gr ` simple_paths gr"

text \<open>
  A distance that a search has set is the weight of a list of distinct vertices that ends
  at the vertex, and the distance of every vertex of the list is at most the weight of
  the list up to it.
\<close>

definition dist_witness :: "('s, 'c) GraphT \<Rightarrow> cost list \<Rightarrow> nat \<Rightarrow> nat list \<Rightarrow> bool" where
  "dist_witness gr d v xs \<longleftrightarrow>
     xs \<in> simple_paths gr \<and> xs \<noteq> [] \<and> last xs = v \<and> d ! v = Fin (path_weight gr xs) \<and>
     (\<forall>k < length xs. \<not> cost_less (Fin (path_weight gr (take (Suc k) xs))) (d ! (xs ! k)))"

definition witnessed :: "('s, 'c) GraphT \<Rightarrow> cost list \<Rightarrow> bool" where
  "witnessed gr d \<longleftrightarrow>
     length d = num_vertices gr \<and>
     (\<forall>v < num_vertices gr. d ! v = DblMax \<or> (\<exists>xs. dist_witness gr d v xs))"

text \<open>
  The number of pairs of a vertex and a weight of a list of distinct vertices that is
  below the distance of the vertex. Every relaxation that succeeds lowers it.
\<close>

definition potential :: "('s, 'c) GraphT \<Rightarrow> cost list \<Rightarrow> nat" where
  "potential gr d =
     (\<Sum>v < num_vertices gr. card {c \<in> path_weights gr. cost_less (Fin c) (d ! v)})"



section \<open>Path assembly: populateOmplPathfromVertexPath\<close>

text \<open>
  \<^verbatim>\<open>ompl::control::PathControl\<close> keeps three vectors. \<^verbatim>\<open>append(state)\<close> pushes a copy
  of the state; \<^verbatim>\<open>append(state, control, duration)\<close> pushes a copy of the state, a copy of
  the control and the duration.
\<close>

record ('s, 'c) PathControl =
  states :: "'s list"
  controls :: "'c list"
  controlDurations :: "real list"

definition empty_path :: "('s, 'c) PathControl" where
  "empty_path = \<lparr>states = [], controls = [], controlDurations = []\<rparr>"

definition append_state :: "('s, 'c) PathControl \<Rightarrow> 's \<Rightarrow> ('s, 'c) PathControl" where
  "append_state path s = path\<lparr>states := states path @ [s]\<rparr>"

definition append_control ::
  "('s, 'c) PathControl \<Rightarrow> 's \<Rightarrow> 'c \<Rightarrow> real \<Rightarrow> ('s, 'c) PathControl" where
  "append_control path s c t =
     path\<lparr>states := states path @ [s], controls := controls path @ [c],
          controlDurations := controlDurations path @ [t]\<rparr>"

text \<open>
  What the function uses of \<^verbatim>\<open>siC_\<close>. \<^verbatim>\<open>allocControl()\<close> hands out a new control object
  whose values nobody has written: \<open>allocControl si k\<close> is the content of the \<open>k\<close>-th object
  handed out, whatever it is. The number of objects handed out so far is threaded through
  the function.
\<close>

record 'c SpaceInformation =
  allocControl :: "nat \<Rightarrow> 'c"
  getPropagationStepSize :: real

text \<open>
  The first statement of the loop body: a vertex whose \<^verbatim>\<open>control\<close> is null gets
  \<^verbatim>\<open>siC_->allocControl()\<close>.
\<close>

definition ensure_control ::
  "'c SpaceInformation \<Rightarrow> nat \<Rightarrow> ('s, 'c) VertexProperty \<Rightarrow> ('s, 'c) VertexProperty \<times> nat" where
  "ensure_control si k v =
     (if control v = None then (v\<lparr>control := Some (allocControl si k)\<rparr>, Suc k) else (v, k))"

text \<open>
  The second statement: the first vertex of the list is appended as a state, every later
  one with its control and \<^verbatim>\<open>control_duration * getPropagationStepSize()\<close>.
\<close>

definition append_vertex ::
  "'c SpaceInformation \<Rightarrow> nat \<Rightarrow> ('s, 'c) PathControl \<Rightarrow> ('s, 'c) VertexProperty \<Rightarrow>
   ('s, 'c) PathControl" where
  "append_vertex si index path v =
     (if index = 0 then append_state path (state v)
      else case control v of
             Some c \<Rightarrow> append_control path (state v) c
               (real (unat (control_duration v)) * getPropagationStepSize si)
           | None \<Rightarrow> path)"

text \<open>
  The loop \<^verbatim>\<open>for (auto && i : vertex_path)\<close>, with the counter \<^verbatim>\<open>index\<close>.
  \<^verbatim>\<open>g[i]\<close> with \<open>i\<close> outside the vertex vector is undefined behaviour: \<open>None\<close>.
\<close>

fun populate_loop ::
  "'c SpaceInformation \<Rightarrow> nat list \<Rightarrow> nat \<Rightarrow>
   ('s, 'c) GraphT \<times> ('s, 'c) PathControl \<times> nat \<Rightarrow>
   (('s, 'c) GraphT \<times> ('s, 'c) PathControl \<times> nat) option" where
  "populate_loop si [] index (gr, path, k) = Some (gr, path, k)"
| "populate_loop si (i # rest) index (gr, path, k) =
     (if i < num_vertices gr then
        let (v1, k1) = ensure_control si k (vertices gr ! i);
            gr1 = gr\<lparr>vertices := (vertices gr)[i := v1]\<rparr>;
            path1 = append_vertex si index path v1
        in populate_loop si rest (Suc index) (gr1, path1, k1)
      else None)"

definition populateOmplPathfromVertexPath ::
  "'c SpaceInformation \<Rightarrow> nat \<Rightarrow> nat list \<Rightarrow> ('s, 'c) GraphT \<Rightarrow>
   (('s, 'c) GraphT \<times> ('s, 'c) PathControl \<times> nat) option" where
  "populateOmplPathfromVertexPath si k vertex_path gr =
     populate_loop si vertex_path 0 (gr, empty_path, k)"

section \<open>The state propagator of SE2PlannerControlSpace\<close>



section \<open>The best-path record of solve\<close>

text \<open>
  The fields \<^verbatim>\<open>bestGeometricCost_\<close>, \<^verbatim>\<open>bestControlCost_\<close>, \<^verbatim>\<open>bestGeometricPath_\<close> and
  \<^verbatim>\<open>bestControlPath_\<close> of the planner, with the initial values the header gives them:
  infinite costs and null paths.
\<close>

record 'p best_path_state =
  bestGeometricCost :: cost
  bestControlCost :: cost
  bestGeometricPath :: "'p option"
  bestControlPath :: "'p option"

definition initial_best :: "'p best_path_state" where
  "initial_best =
     \<lparr>bestGeometricCost = PosInf, bestControlCost = PosInf,
      bestGeometricPath = None, bestControlPath = None\<rparr>"

text \<open>
  Modelled from the spec: the update of the best-path record in \<^verbatim>\<open>solve\<close>, which the
  header declares and whose definition is not among the sources. The spec: the record is
  updated only when a newly found path strictly improves the recorded cost. The finding
  of a search is the cost and the path it found, if any.
\<close>

definition update_geometric :: "'p best_path_state \<Rightarrow> (cost \<times> 'p) option \<Rightarrow> 'p best_path_state" where
  "update_geometric best found =
     (case found of
        None \<Rightarrow> best
      | Some (c, path) \<Rightarrow>
          if cost_less c (bestGeometricCost best)
          then best\<lparr>bestGeometricCost := c, bestGeometricPath := Some path\<rparr>
          else best)"

text \<open>
  Modelled from the spec: the same update for the control path; the definition of
  \<^verbatim>\<open>solve\<close> is not among the sources.
\<close>

definition update_control :: "'p best_path_state \<Rightarrow> (cost \<times> 'p) option \<Rightarrow> 'p best_path_state" where
  "update_control best found =
     (case found of
        None \<Rightarrow> best
      | Some (c, path) \<Rightarrow>
          if cost_less c (bestControlCost best)
          then best\<lparr>bestControlCost := c, bestControlPath := Some path\<rparr>
          else best)"

text \<open>
  Modelled from the spec: one round of \<^verbatim>\<open>solve\<close> searches both graphs and updates the
  record with what it found; \<open>solve_rounds\<close> is the record after each round of a call.
\<close>

definition round_update ::
  "'p best_path_state \<Rightarrow> (cost \<times> 'p) option \<times> (cost \<times> 'p) option \<Rightarrow> 'p best_path_state" where
  "round_update best found = update_control (update_geometric best (fst found)) (snd found)"

text \<open>
  Modelled from the spec: the records of a call of \<^verbatim>\<open>solve\<close>, one after each round of
  its loop, whose definition is not among the sources.
\<close>

fun solve_rounds ::
  "'p best_path_state \<Rightarrow> ((cost \<times> 'p) option \<times> (cost \<times> 'p) option) list \<Rightarrow>
   'p best_path_state list" where
  "solve_rounds best [] = []"
| "solve_rounds best (found # rest) =
     round_update best found # solve_rounds (round_update best found) rest"

section \<open>Expansion of the geometric graph\<close>

text \<open>
  A vertex as \<^verbatim>\<open>boost::add_vertex\<close> creates it, with the default member initializers of
  \<^verbatim>\<open>VertexProperty\<close>, holding the state \<open>x\<close> and its own index.
\<close>

definition new_vertex :: "nat \<Rightarrow> 's \<Rightarrow> ('s, 'c) VertexProperty" where
  "new_vertex i x =
     \<lparr>state = x, control = None, control_duration = 0, vertex_id = i,
      g_value = Fin 1000, blacklisted = False\<rparr>"

definition add_vertex :: "('s, 'c) VertexProperty \<Rightarrow> ('s, 'c) GraphT \<Rightarrow> ('s, 'c) GraphT" where
  "add_vertex v gr = gr\<lparr>vertices := vertices gr @ [v]\<rparr>"

text \<open>
  \<^verbatim>\<open>boost::add_edge\<close> followed by the assignment of the weight; with \<^verbatim>\<open>setS\<close> an edge
  that is already there is not added again.
\<close>

definition add_edge :: "nat \<Rightarrow> nat \<Rightarrow> cost \<Rightarrow> ('s, 'c) GraphT \<Rightarrow> ('s, 'c) GraphT" where
  "add_edge u v w gr =
     (if edge_weight gr (ekey u v) = None
      then gr\<lparr>edge_weight := (edge_weight gr)(ekey u v := Some w)\<rparr> else gr)"







section \<open>Expansion of the control graph\<close>

text \<open>
  What the expansion uses of the planner: the state propagator, the propagation step
  size, the validity checker and the motion cost.
\<close>

record ('s, 'c) control_params =
  statePropagator :: "'s \<Rightarrow> 'c \<Rightarrow> real \<Rightarrow> 's"
  stepSize :: real
  stateValid :: "'s \<Rightarrow> bool"
  edgeCost :: "'s \<Rightarrow> 's \<Rightarrow> cost"

text \<open>
  Modelled from the spec: the forward simulation of a control from a state for a number of
  propagation steps, as the list of the states after each step. The spec names the
  propagator \<open>propagate(state, control, duration) -> state'\<close> and says no more of how a
  segment is simulated; the model applies the propagator once per step.
\<close>

fun simulate :: "('s, 'c) control_params \<Rightarrow> 'c \<Rightarrow> 's \<Rightarrow> nat \<Rightarrow> 's list" where
  "simulate par c x 0 = []"
| "simulate par c x (Suc k) =
     statePropagator par x c (stepSize par) # simulate par c (statePropagator par x c (stepSize par)) k"

text \<open>
  Modelled from the spec: a candidate of the expansion, whose definition is not among the
  sources: the existing vertex chosen as the source, the control drawn, and the number
  of steps it is applied for.
\<close>

record 'c candidate =
  source :: nat
  drawn_control :: 'c
  steps :: "32 word"

text \<open>
  Modelled from the spec: \<^verbatim>\<open>expandControlGraph\<close>, which the header declares and whose
  definition is not among the sources. The spec: forward-simulate each candidate control
  and keep the resulting end-state as a new vertex, with an edge labeled by control and
  duration, only if the simulated trajectory and its endpoint pass validity checking;
  otherwise discard the whole candidate. The label of the edge is kept in the fields
  \<open>control\<close> and \<open>control_duration\<close> of the new vertex.
\<close>

definition feasible :: "('s, 'c) control_params \<Rightarrow> ('s, 'c) GraphT \<Rightarrow> 'c candidate \<Rightarrow> bool" where
  "feasible par gr cand \<longleftrightarrow>
     source cand < num_vertices gr \<and> steps cand \<noteq> 0 \<and>
     list_all (stateValid par)
       (simulate par (drawn_control cand) (state (vertices gr ! source cand)) (unat (steps cand)))"

text \<open>
  Modelled from the spec: what the expansion does with one candidate (the definition of
  \<^verbatim>\<open>expandControlGraph\<close> is not among the sources): a feasible candidate gives a new
  vertex and an edge from its source, any other candidate gives nothing.
\<close>

definition expand_candidate ::
  "('s, 'c) control_params \<Rightarrow> 'c candidate \<Rightarrow> ('s, 'c) GraphT \<Rightarrow> ('s, 'c) GraphT" where
  "expand_candidate par cand gr =
     (if feasible par gr cand then
        let x0 = state (vertices gr ! source cand);
            x1 = last (simulate par (drawn_control cand) x0 (unat (steps cand)));
            v = (new_vertex (num_vertices gr) x1)
                  \<lparr>control := Some (drawn_control cand), control_duration := steps cand\<rparr>
        in add_edge (source cand) (num_vertices gr) (edgeCost par x0 x1) (add_vertex v gr)
      else gr)"

text \<open>
  Modelled from the spec: \<^verbatim>\<open>expandControlGraph\<close>, declared in the header and not
  defined among the sources, as the expansion by each candidate in turn.
\<close>

definition expandControlGraph ::
  "('s, 'c) control_params \<Rightarrow> 'c candidate list \<Rightarrow> ('s, 'c) GraphT \<Rightarrow> ('s, 'c) GraphT" where
  "expandControlGraph par cands gr = fold (expand_candidate par) cands gr"

text \<open>
  The invariant of the control graph: every edge runs from a vertex to a later one, and the
  later one holds the control and the duration whose simulation from the state of the
  earlier one passed the validity check at every step and ended in the state of the later
  one.
\<close>

definition edges_simulated :: "('s, 'c) control_params \<Rightarrow> ('s, 'c) GraphT \<Rightarrow> bool" where
  "edges_simulated par gr \<longleftrightarrow>
     (\<forall>a b. edge_weight gr (a, b) \<noteq> None \<longrightarrow>
        a < b \<and> b < num_vertices gr \<and>
        (\<exists>c. control (vertices gr ! b) = Some c \<and>
           simulate par c (state (vertices gr ! a)) (unat (control_duration (vertices gr ! b))) \<noteq> [] \<and>
           list_all (stateValid par)
             (simulate par c (state (vertices gr ! a)) (unat (control_duration (vertices gr ! b)))) \<and>
           state (vertices gr ! b) =
             last (simulate par c (state (vertices gr ! a)) (unat (control_duration (vertices gr ! b))))))"

section \<open>Concrete inputs\<close>

text \<open>
  A graph of two vertices: vertex 0 carries a recorded control and a duration of three
  steps, vertex 1 has no control and the default duration. States and controls are
  numbered.
\<close>

definition path_graph :: "(nat, nat) GraphT" where
  "path_graph =
     \<lparr>vertices =
        [\<lparr>state = 10, control = Some 7, control_duration = 3, vertex_id = 0,
          g_value = Fin 1000, blacklisted = False\<rparr>,
         \<lparr>state = 11, control = None, control_duration = 0, vertex_id = 1,
          g_value = Fin 1000, blacklisted = False\<rparr>],
      edge_weight = (\<lambda>e. None)\<rparr>"

definition path_si :: "nat SpaceInformation" where
  "path_si = \<lparr>allocControl = (\<lambda>k. 100 + k), getPropagationStepSize = 1 / 2\<rparr>"


text \<open>
  Graphs for the searches. Vertex \<open>i\<close> has the state \<open>i\<close>, no control and the default
  \<open>g\<close>. In the triangle every two of the three vertices are joined by an edge of weight 1.
  The other two graphs have two vertices, joined by one edge of infinite weight in the
  first and by no edge in the second. The state 1 is the only one that is not valid.
\<close>

definition plain_vertex :: "nat \<Rightarrow> (nat, nat) VertexProperty" where
  "plain_vertex i =
     \<lparr>state = i, control = None, control_duration = 0, vertex_id = i,
      g_value = Fin 1000, blacklisted = False\<rparr>"

definition triangle :: "(nat, nat) GraphT" where
  "triangle =
     \<lparr>vertices = map plain_vertex [0, 1, 2],
      edge_weight = map_of [((0, 1), Fin 1), ((0, 2), Fin 1), ((1, 2), Fin 1)]\<rparr>"

definition blocked_pair :: "(nat, nat) GraphT" where
  "blocked_pair = \<lparr>vertices = map plain_vertex [0, 1], edge_weight = map_of [((0, 1), PosInf)]\<rparr>"

definition apart_pair :: "(nat, nat) GraphT" where
  "apart_pair = \<lparr>vertices = map plain_vertex [0, 1], edge_weight = (\<lambda>e. None)\<rparr>"

definition one_invalid :: "nat planner_env" where
  "one_invalid = \<lparr>isValid = (\<lambda>x. x \<noteq> 1), motionCost = (\<lambda>a b. Fin 0)\<rparr>"



text \<open>
  A vehicle on the integers whose control is its speed per step, in a world where the
  states from 10 on are not valid; the cost of a motion is its length. The graph holds
  the start state 0.
\<close>

definition lane_params :: "(int, int) control_params" where
  "lane_params =
     \<lparr>statePropagator = (\<lambda>x c t. x + c), stepSize = 1,
      stateValid = (\<lambda>x. x < 10), edgeCost = (\<lambda>a b. Fin (real_of_int \<bar>b - a\<bar>))\<rparr>"

definition lane_start :: "(int, int) GraphT" where
  "lane_start = \<lparr>vertices = [new_vertex 0 0], edge_weight = (\<lambda>e. None)\<rparr>"

section \<open>Dijkstra's loop ends\<close>

text \<open>
  Every round of the loop takes one vertex from the queue, and a vertex enters the queue
  only when it is white and stops being white then: the length of the queue plus the
  number of white vertices goes down with every round.
\<close>

lemma dijkstra_edge_measure:
  assumes v: "v < num_vertices gr" and e: "dijkstra_edge u v w (st, col, q) = (st', col', q')"
  shows "length q' + white_count gr col' = length q + white_count gr col"
proof (cases "col v")
  case White
  let ?W = "{x. x < num_vertices gr \<and> col x = White}"
  have "{x. x < num_vertices gr \<and> (col(v := Gray)) x = White} = ?W - {v}" by auto
  moreover have "v \<in> ?W" using v White by simp
  moreover have "finite ?W" by simp
  ultimately have "white_count gr (col(v := Gray)) + 1 = white_count gr col"
    unfolding white_count_def using card_Suc_Diff1[of ?W v] by simp
  with e White show ?thesis by (auto simp: dijkstra_edge_def)
next
  case Gray
  with e show ?thesis by (auto simp: dijkstra_edge_def)
next
  case Black
  with e show ?thesis by (auto simp: dijkstra_edge_def)
qed

lemma dijkstra_edges_measure:
  "set vs \<subseteq> {..<num_vertices gr} \<Longrightarrow> dijkstra_edges gr u vs (st, col, q) = Some (st', col', q') \<Longrightarrow>
   length q' + white_count gr col' = length q + white_count gr col"
proof (induction vs arbitrary: st col q)
  case Nil
  then show ?case by simp
next
  case (Cons v vs)
  show ?case
  proof (cases "edge_weight gr (ekey u v)")
    case None
    with Cons show ?thesis by simp
  next
    case (Some w)
    obtain st1 col1 q1 where e: "dijkstra_edge u v w (st, col, q) = (st1, col1, q1)"
      by (cases "dijkstra_edge u v w (st, col, q)") auto
    with Cons.prems Some have "dijkstra_edges gr u vs (st1, col1, q1) = Some (st', col', q')"
      by (simp split: if_splits)
    with Cons.IH[of st1 col1 q1] Cons.prems(1)
    have "length q' + white_count gr col' = length q1 + white_count gr col1" by simp
    moreover have "v < num_vertices gr" using Cons.prems(1) by simp
    from dijkstra_edge_measure[OF this e]
    have "length q1 + white_count gr col1 = length q + white_count gr col" .
    ultimately show ?thesis by simp
  qed
qed

lemma white_count_black: "white_count gr (col(u := Black)) \<le> white_count gr col"
  unfolding white_count_def by (rule card_mono) auto

lemma min_vertex_mem: "min_vertex d u vs \<in> set (u # vs)"
  by (induction vs arbitrary: u) auto

termination dijkstra_loop
proof (relation "measure (\<lambda>(gr, goal_vertex, st, col, q). length q + white_count gr col)")
  show "wf (measure (\<lambda>(gr, goal_vertex, st, col, q). length q + white_count gr col))" by simp
next
  fix gr :: "('a, 'b) GraphT" and goal_vertex :: nat and st :: "('a, 'b) search_state"
    and col q q0 qs u x st1 found sq2 st2 y col2 q2
  assume q: "q = q0 # qs" and u: "u = min_vertex (dmap st) q0 qs"
    and e: "dijkstra_edges gr u (out_edges u gr) (st1, col, remove1 u q) = Some sq2"
    and sq2: "(st2, y) = sq2" "(col2, q2) = y"
  have "u \<in> set q" using u q min_vertex_mem[of "dmap st" q0 qs] by simp
  then have len: "length (remove1 u q) + 1 = length q" by (simp add: length_remove1) (cases q; simp)
  have sub: "set (out_edges u gr) \<subseteq> {..<num_vertices gr}" by (auto simp: out_edges_def)
  from e sq2 have "dijkstra_edges gr u (out_edges u gr) (st1, col, remove1 u q) = Some (st2, col2, q2)"
    by auto
  from dijkstra_edges_measure[OF sub this]
  have "length q2 + white_count gr col2 = length (remove1 u q) + white_count gr col" .
  with len white_count_black[of gr col2 u]
  show "((gr, goal_vertex, st2, col2(u := Black), q2), gr, goal_vertex, st, col, q)
       \<in> measure (\<lambda>(gr, goal_vertex, st, col, q). length q + white_count gr col)"
    by simp
qed

text \<open>The two partial functions are evaluated by their defining equations.\<close>

declare astar_loop.simps [code]
declare reconstruct.simps [code]

section \<open>Path assembly: what the loop does to the graph and to the path\<close>

lemma ensure_control_fields:
  "ensure_control si k v = (v1, k1) \<Longrightarrow>
   state v1 = state v \<and> control_duration v1 = control_duration v \<and>
   vertex_id v1 = vertex_id v \<and> g_value v1 = g_value v \<and> blacklisted v1 = blacklisted v \<and>
   k \<le> k1 \<and> control v1 \<noteq> None"
  by (auto simp: ensure_control_def split: if_splits)

lemma ensure_control_kept:
  "ensure_control si k v = (v1, k1) \<Longrightarrow> control v \<noteq> None \<Longrightarrow> v1 = v \<and> k1 = k"
  by (auto simp: ensure_control_def)

lemma ensure_control_fresh:
  "ensure_control si k v = (v1, k1) \<Longrightarrow> control v = None \<Longrightarrow>
   control v1 = Some (allocControl si k) \<and> k1 = Suc k"
  by (auto simp: ensure_control_def)

lemma populate_loop_step:
  assumes "populate_loop si (i # rest) index (gr, path, k) = Some r"
  obtains v1 k1 where "i < length (vertices gr)"
    and "ensure_control si k (vertices gr ! i) = (v1, k1)"
    and "populate_loop si rest (Suc index)
           (gr\<lparr>vertices := (vertices gr)[i := v1]\<rparr>, append_vertex si index path v1, k1) = Some r"
  using assms
  by (auto simp: num_vertices_def Let_def split: if_splits prod.splits)

lemma populate_loop_fields:
  "populate_loop si vp index (gr, path, k) = Some (gr', path', k') \<Longrightarrow>
   v < length (vertices gr) \<Longrightarrow>
   state (vertices gr' ! v) = state (vertices gr ! v) \<and>
   control_duration (vertices gr' ! v) = control_duration (vertices gr ! v) \<and>
   vertex_id (vertices gr' ! v) = vertex_id (vertices gr ! v) \<and>
   g_value (vertices gr' ! v) = g_value (vertices gr ! v) \<and>
   blacklisted (vertices gr' ! v) = blacklisted (vertices gr ! v)"
proof (induction vp arbitrary: index gr path k)
  case Nil
  then show ?case by simp
next
  case (Cons i rest)
  from Cons.prems(1) obtain v1 k1 where i: "i < length (vertices gr)"
    and ec: "ensure_control si k (vertices gr ! i) = (v1, k1)"
    and rec: "populate_loop si rest (Suc index)
           (gr\<lparr>vertices := (vertices gr)[i := v1]\<rparr>, append_vertex si index path v1, k1)
         = Some (gr', path', k')"
    by (rule populate_loop_step)
  have "v < length (vertices (gr\<lparr>vertices := (vertices gr)[i := v1]\<rparr>))"
    using Cons.prems(2) by simp
  from Cons.IH[OF rec this] ensure_control_fields[OF ec] Cons.prems(2)
  show ?case by (cases "v = i") simp_all
qed

lemma populate_loop_counter:
  "populate_loop si vp index (gr, path, k) = Some (gr', path', k') \<Longrightarrow>
   k \<le> k' \<and> edge_weight gr' = edge_weight gr \<and> length (vertices gr') = length (vertices gr)"
proof (induction vp arbitrary: index gr path k)
  case Nil
  then show ?case by simp
next
  case (Cons i rest)
  from Cons.prems(1) obtain v1 k1 where i: "i < length (vertices gr)"
    and ec: "ensure_control si k (vertices gr ! i) = (v1, k1)"
    and rec: "populate_loop si rest (Suc index)
           (gr\<lparr>vertices := (vertices gr)[i := v1]\<rparr>, append_vertex si index path v1, k1)
         = Some (gr', path', k')"
    by (rule populate_loop_step)
  from Cons.IH[OF rec] ensure_control_fields[OF ec]
  show ?case by simp
qed

lemma populate_loop_control_kept:
  "populate_loop si vp index (gr, path, k) = Some (gr', path', k') \<Longrightarrow>
   v < length (vertices gr) \<Longrightarrow> control (vertices gr ! v) \<noteq> None \<Longrightarrow>
   control (vertices gr' ! v) = control (vertices gr ! v)"
proof (induction vp arbitrary: index gr path k)
  case Nil
  then show ?case by simp
next
  case (Cons i rest)
  from Cons.prems(1) obtain v1 k1 where i: "i < length (vertices gr)"
    and ec: "ensure_control si k (vertices gr ! i) = (v1, k1)"
    and rec: "populate_loop si rest (Suc index)
           (gr\<lparr>vertices := (vertices gr)[i := v1]\<rparr>, append_vertex si index path v1, k1)
         = Some (gr', path', k')"
    by (rule populate_loop_step)
  let ?gr1 = "gr\<lparr>vertices := (vertices gr)[i := v1]\<rparr>"
  have len: "v < length (vertices ?gr1)" using Cons.prems(2) by simp
  have same: "control (vertices ?gr1 ! v) = control (vertices gr ! v)"
  proof (cases "v = i")
    case True
    then show ?thesis using ensure_control_kept[OF ec] Cons.prems(2,3) by simp
  next
    case False
    then show ?thesis by simp
  qed
  from Cons.IH[OF rec len] same Cons.prems(3) show ?case by simp
qed

lemma populate_loop_untouched:
  "populate_loop si vp index (gr, path, k) = Some (gr', path', k') \<Longrightarrow>
   v < length (vertices gr) \<Longrightarrow> v \<notin> set vp \<Longrightarrow>
   vertices gr' ! v = vertices gr ! v"
proof (induction vp arbitrary: index gr path k)
  case Nil
  then show ?case by simp
next
  case (Cons i rest)
  from Cons.prems(1) obtain v1 k1 where i: "i < length (vertices gr)"
    and ec: "ensure_control si k (vertices gr ! i) = (v1, k1)"
    and rec: "populate_loop si rest (Suc index)
           (gr\<lparr>vertices := (vertices gr)[i := v1]\<rparr>, append_vertex si index path v1, k1)
         = Some (gr', path', k')"
    by (rule populate_loop_step)
  let ?gr1 = "gr\<lparr>vertices := (vertices gr)[i := v1]\<rparr>"
  have len: "v < length (vertices ?gr1)" using Cons.prems(2) by simp
  have "v \<notin> set rest" "v \<noteq> i" using Cons.prems(3) by auto
  with Cons.IH[OF rec len] show ?case by simp
qed

lemma populate_loop_control_fresh:
  "populate_loop si vp index (gr, path, k) = Some (gr', path', k') \<Longrightarrow>
   v \<in> set vp \<Longrightarrow> control (vertices gr ! v) = None \<Longrightarrow>
   \<exists>j. k \<le> j \<and> j < k' \<and> control (vertices gr' ! v) = Some (allocControl si j)"
proof (induction vp arbitrary: index gr path k)
  case Nil
  then show ?case by simp
next
  case (Cons i rest)
  from Cons.prems(1) obtain v1 k1 where i: "i < length (vertices gr)"
    and ec: "ensure_control si k (vertices gr ! i) = (v1, k1)"
    and rec: "populate_loop si rest (Suc index)
           (gr\<lparr>vertices := (vertices gr)[i := v1]\<rparr>, append_vertex si index path v1, k1)
         = Some (gr', path', k')"
    by (rule populate_loop_step)
  let ?gr1 = "gr\<lparr>vertices := (vertices gr)[i := v1]\<rparr>"
  have kk: "k \<le> k1" "k1 \<le> k'"
    using ensure_control_fields[OF ec] populate_loop_counter[OF rec] by simp_all
  show ?case
  proof (cases "v = i")
    case True
    with Cons.prems(3) have fresh: "control v1 = Some (allocControl si k)" "k1 = Suc k"
      using ensure_control_fresh[OF ec] by simp_all
    have "control (vertices ?gr1 ! v) = Some (allocControl si k)"
      using True i fresh by simp
    moreover have "v < length (vertices ?gr1)" using True i by simp
    ultimately have "control (vertices gr' ! v) = Some (allocControl si k)"
      using populate_loop_control_kept[OF rec, of v] by simp
    moreover have "k < k'" using kk fresh by simp
    ultimately show ?thesis by blast
  next
    case False
    then have "v \<in> set rest" using Cons.prems(2) by simp
    moreover have "control (vertices ?gr1 ! v) = None"
      using False Cons.prems(3) by simp
    ultimately obtain j where "k1 \<le> j" "j < k'" "control (vertices gr' ! v) = Some (allocControl si j)"
      using Cons.IH[OF rec] by blast
    then show ?thesis using kk by (intro exI[of _ j]) simp
  qed
qed

lemma populate_loop_total:
  "\<forall>i \<in> set vp. i < num_vertices gr \<Longrightarrow>
   \<exists>r. populate_loop si vp index (gr, path, k) = Some r"
proof (induction vp arbitrary: index gr path k)
  case Nil
  then show ?case by simp
next
  case (Cons i rest)
  then show ?case
    by (simp add: Let_def num_vertices_def split: prod.splits)
qed

lemma populate_loop_in_range:
  "populate_loop si vp index (gr, path, k) = Some r \<Longrightarrow> i \<in> set vp \<Longrightarrow> i < num_vertices gr"
proof (induction vp arbitrary: index gr path k)
  case Nil
  then show ?case by simp
next
  case (Cons a rest)
  from Cons.prems(1) obtain v1 k1 where a: "a < length (vertices gr)"
    and rec: "populate_loop si rest (Suc index)
           (gr\<lparr>vertices := (vertices gr)[a := v1]\<rparr>, append_vertex si index path v1, k1) = Some r"
    by (rule populate_loop_step)
  show ?case
  proof (cases "i = a")
    case True
    then show ?thesis using a by (simp add: num_vertices_def)
  next
    case False
    then have "i \<in> set rest" using Cons.prems(2) by simp
    from Cons.IH[OF rec this] show ?thesis by (simp add: num_vertices_def)
  qed
qed

lemma populate_loop_path:
  "populate_loop si vp index (gr, path, k) = Some (gr', path', k') \<Longrightarrow>
   states path' = states path @ map (\<lambda>i. state (vertices gr ! i)) vp \<and>
   map Some (controls path') =
     map Some (controls path) @ map (\<lambda>i. control (vertices gr' ! i)) (if index = 0 then tl vp else vp) \<and>
   controlDurations path' =
     controlDurations path @
     map (\<lambda>i. real (unat (control_duration (vertices gr ! i))) * getPropagationStepSize si)
       (if index = 0 then tl vp else vp)"
proof (induction vp arbitrary: index gr path k)
  case Nil
  then show ?case by simp
next
  case (Cons i rest)
  from Cons.prems(1) obtain v1 k1 where i: "i < length (vertices gr)"
    and ec: "ensure_control si k (vertices gr ! i) = (v1, k1)"
    and rec: "populate_loop si rest (Suc index)
           (gr\<lparr>vertices := (vertices gr)[i := v1]\<rparr>, append_vertex si index path v1, k1)
         = Some (gr', path', k')"
    by (rule populate_loop_step)
  let ?gr1 = "gr\<lparr>vertices := (vertices gr)[i := v1]\<rparr>"
  note IH = Cons.IH[OF rec]
  note f1 = ensure_control_fields[OF ec]
  have rng: "\<And>j. j \<in> set rest \<Longrightarrow> j < length (vertices gr)"
    using populate_loop_in_range[OF rec] by (simp add: num_vertices_def)
  have pt: "state (vertices ?gr1 ! j) = state (vertices gr ! j) \<and>
      control_duration (vertices ?gr1 ! j) = control_duration (vertices gr ! j)"
    if "j < length (vertices gr)" for j
    using that f1 by (cases "j = i") simp_all
  have m1: "map (\<lambda>j. state (vertices ?gr1 ! j)) rest = map (\<lambda>j. state (vertices gr ! j)) rest"
    using rng pt by simp
  have m2: "map (\<lambda>j. real (unat (control_duration (vertices ?gr1 ! j))) * getPropagationStepSize si) rest
      = map (\<lambda>j. real (unat (control_duration (vertices gr ! j))) * getPropagationStepSize si) rest"
    using rng pt by simp
  obtain c where c: "control v1 = Some c" using f1 by auto
  have "control (vertices ?gr1 ! i) = Some c" using i c by simp
  moreover have "i < length (vertices ?gr1)" using i by simp
  ultimately have cfin: "control (vertices gr' ! i) = Some c"
    using populate_loop_control_kept[OF rec, of i] by simp
  show ?case
  proof (cases "index = 0")
    case True
    then show ?thesis using IH m1 m2 f1
      by (simp add: append_vertex_def append_state_def)
  next
    case False
    then show ?thesis using IH m1 m2 f1 c cfin
      by (simp add: append_vertex_def append_control_def)
  qed
qed


section \<open>Path assembly: the claims\<close>

text \<open>
  Claim C7, as stated, fails: which form a vertex takes in the path depends on its place in
  the list, not on whether it has a recorded control. A list of the single vertex 0, which
  carries a recorded control and a duration of three steps, gives a path with one state and
  no control and no duration at all.
\<close>

theorem populate_first_vertex_counterexample:
  "control (vertices path_graph ! 0) = Some 7 \<and>
   control_duration (vertices path_graph ! 0) = 3 \<and>
   populateOmplPathfromVertexPath path_si 0 [0] path_graph =
     Some (path_graph, \<lparr>states = [10], controls = [], controlDurations = []\<rparr>, 0)"
  by (simp add: populateOmplPathfromVertexPath_def path_graph_def path_si_def empty_path_def
      num_vertices_def ensure_control_def append_vertex_def append_state_def)

text \<open>
  Claim C7, amended. When every vertex of the list is a vertex of the graph, the function
  returns, and the path holds one state per vertex of the list, in the order of the list.
  The first vertex contributes its state only. Every later vertex contributes its state,
  its control as the graph holds it after the call (the recorded one if there was one,
  otherwise the control just allocated) and the duration
  \<open>control_duration * getPropagationStepSize\<close>, which is zero for a vertex with the
  default duration 0.
\<close>

theorem populate_path_contents:
  assumes "set vertex_path \<subseteq> {..<num_vertices gr}"
  shows "\<exists>gr' path k'.
     populateOmplPathfromVertexPath si k vertex_path gr = Some (gr', path, k') \<and>
     states path = map (\<lambda>i. state (vertices gr ! i)) vertex_path \<and>
     map Some (controls path) = map (\<lambda>i. control (vertices gr' ! i)) (tl vertex_path) \<and>
     controlDurations path =
       map (\<lambda>i. real (unat (control_duration (vertices gr ! i))) * getPropagationStepSize si)
         (tl vertex_path) \<and>
     (\<forall>i \<in> set vertex_path. control (vertices gr ! i) \<noteq> None \<longrightarrow>
        control (vertices gr' ! i) = control (vertices gr ! i))"
proof -
  from assms have "\<forall>i \<in> set vertex_path. i < num_vertices gr" by auto
  then obtain r where "populate_loop si vertex_path 0 (gr, empty_path, k) = Some r"
    using populate_loop_total by blast
  then obtain gr' path k' where
    run: "populate_loop si vertex_path 0 (gr, empty_path, k) = Some (gr', path, k')"
    by (cases r) auto
  have kept: "control (vertices gr' ! i) = control (vertices gr ! i)"
    if "i \<in> set vertex_path" "control (vertices gr ! i) \<noteq> None" for i
  proof -
    have "i < length (vertices gr)" using assms that(1) by (auto simp: num_vertices_def)
    then show ?thesis using populate_loop_control_kept[OF run] that(2) by blast
  qed
  from populate_loop_path[OF run] kept run show ?thesis
    by (simp add: populateOmplPathfromVertexPath_def empty_path_def)
qed

theorem populate_path_contents_witness:
  "set [1, 0, 1] \<subseteq> {..<num_vertices path_graph} \<and>
   (\<exists>gr' k'. populateOmplPathfromVertexPath path_si 0 [1, 0, 1] path_graph =
      Some (gr', \<lparr>states = [11, 10, 11], controls = [7, 100], controlDurations = [3 / 2, 0]\<rparr>, k'))"
proof -
  have h: "set [1, 0, 1] \<subseteq> {..<num_vertices path_graph}"
    by (simp add: num_vertices_def path_graph_def)
  from populate_path_contents[OF h, of path_si 0]
  obtain gr' path k' where
    run: "populateOmplPathfromVertexPath path_si 0 [1, 0, 1] path_graph = Some (gr', path, k')"
    and st: "states path = map (\<lambda>i. state (vertices path_graph ! i)) [1, 0, 1]"
    and du: "controlDurations path =
       map (\<lambda>i. real (unat (control_duration (vertices path_graph ! i))) *
                 getPropagationStepSize path_si) (tl [1, 0, 1])"
    by blast
  from st have st': "states path = [11, 10, 11]" by (simp add: path_graph_def)
  from du have du': "controlDurations path = [3 / 2, 0]" by (simp add: path_graph_def path_si_def)
  have "populateOmplPathfromVertexPath path_si 0 [1, 0, 1] path_graph =
     Some (path_graph\<lparr>vertices := (vertices path_graph)[1 := (vertices path_graph ! 1)\<lparr>control := Some 100\<rparr>]\<rparr>,
           \<lparr>states = [11, 10, 11], controls = [7, 100], controlDurations = [3 / 2, 0]\<rparr>, 1)"
    by (simp add: populateOmplPathfromVertexPath_def path_graph_def path_si_def empty_path_def
      num_vertices_def ensure_control_def append_vertex_def append_state_def append_control_def)
  with run st' du' h show ?thesis by simp
qed

text \<open>
  Claim C9. Path assembly writes to the graph: a vertex of the list whose control is null
  gets a control that \<open>allocControl\<close> hands out during the call, with the content it is
  handed out with (nothing is written into it). All other fields of all vertices, the
  control of a vertex that has one, every vertex outside the list, the number of vertices
  and the edge weights stay as they are.
\<close>

theorem populate_frame:
  assumes "set vertex_path \<subseteq> {..<num_vertices gr}"
  shows "\<exists>gr' path k'.
     populateOmplPathfromVertexPath si k vertex_path gr = Some (gr', path, k') \<and>
     num_vertices gr' = num_vertices gr \<and> edge_weight gr' = edge_weight gr \<and>
     (\<forall>v < num_vertices gr.
        state (vertices gr' ! v) = state (vertices gr ! v) \<and>
        control_duration (vertices gr' ! v) = control_duration (vertices gr ! v) \<and>
        vertex_id (vertices gr' ! v) = vertex_id (vertices gr ! v) \<and>
        g_value (vertices gr' ! v) = g_value (vertices gr ! v) \<and>
        blacklisted (vertices gr' ! v) = blacklisted (vertices gr ! v) \<and>
        (control (vertices gr ! v) \<noteq> None \<longrightarrow>
           control (vertices gr' ! v) = control (vertices gr ! v)) \<and>
        (v \<notin> set vertex_path \<longrightarrow> vertices gr' ! v = vertices gr ! v) \<and>
        (v \<in> set vertex_path \<and> control (vertices gr ! v) = None \<longrightarrow>
           (\<exists>j. k \<le> j \<and> j < k' \<and> control (vertices gr' ! v) = Some (allocControl si j))))"
proof -
  from assms have "\<forall>i \<in> set vertex_path. i < num_vertices gr" by auto
  then obtain r where "populate_loop si vertex_path 0 (gr, empty_path, k) = Some r"
    using populate_loop_total by blast
  then obtain gr' path k' where
    run: "populate_loop si vertex_path 0 (gr, empty_path, k) = Some (gr', path, k')"
    by (cases r) auto
  have "populateOmplPathfromVertexPath si k vertex_path gr = Some (gr', path, k')"
    using run by (simp add: populateOmplPathfromVertexPath_def)
  moreover have "num_vertices gr' = num_vertices gr \<and> edge_weight gr' = edge_weight gr"
    using populate_loop_counter[OF run] by (simp add: num_vertices_def)
  moreover have "\<forall>v < num_vertices gr.
        state (vertices gr' ! v) = state (vertices gr ! v) \<and>
        control_duration (vertices gr' ! v) = control_duration (vertices gr ! v) \<and>
        vertex_id (vertices gr' ! v) = vertex_id (vertices gr ! v) \<and>
        g_value (vertices gr' ! v) = g_value (vertices gr ! v) \<and>
        blacklisted (vertices gr' ! v) = blacklisted (vertices gr ! v) \<and>
        (control (vertices gr ! v) \<noteq> None \<longrightarrow>
           control (vertices gr' ! v) = control (vertices gr ! v)) \<and>
        (v \<notin> set vertex_path \<longrightarrow> vertices gr' ! v = vertices gr ! v) \<and>
        (v \<in> set vertex_path \<and> control (vertices gr ! v) = None \<longrightarrow>
           (\<exists>j. k \<le> j \<and> j < k' \<and> control (vertices gr' ! v) = Some (allocControl si j)))"
  proof (intro allI impI)
    fix v assume "v < num_vertices gr"
    then have v: "v < length (vertices gr)" by (simp add: num_vertices_def)
    show "state (vertices gr' ! v) = state (vertices gr ! v) \<and>
        control_duration (vertices gr' ! v) = control_duration (vertices gr ! v) \<and>
        vertex_id (vertices gr' ! v) = vertex_id (vertices gr ! v) \<and>
        g_value (vertices gr' ! v) = g_value (vertices gr ! v) \<and>
        blacklisted (vertices gr' ! v) = blacklisted (vertices gr ! v) \<and>
        (control (vertices gr ! v) \<noteq> None \<longrightarrow>
           control (vertices gr' ! v) = control (vertices gr ! v)) \<and>
        (v \<notin> set vertex_path \<longrightarrow> vertices gr' ! v = vertices gr ! v) \<and>
        (v \<in> set vertex_path \<and> control (vertices gr ! v) = None \<longrightarrow>
           (\<exists>j. k \<le> j \<and> j < k' \<and> control (vertices gr' ! v) = Some (allocControl si j)))"
      using populate_loop_fields[OF run v] populate_loop_control_kept[OF run v]
        populate_loop_untouched[OF run v] populate_loop_control_fresh[OF run, of v]
      by blast
  qed
  ultimately show ?thesis by blast
qed

theorem populate_frame_witness:
  "set [1, 0, 1] \<subseteq> {..<num_vertices path_graph} \<and>
   (\<exists>gr' path k'. populateOmplPathfromVertexPath path_si 0 [1, 0, 1] path_graph = Some (gr', path, k') \<and>
      control (vertices gr' ! 1) = Some 100 \<and> control (vertices gr' ! 0) = Some 7 \<and>
      state (vertices gr' ! 1) = 11 \<and> control_duration (vertices gr' ! 1) = 0 \<and>
      g_value (vertices gr' ! 1) = Fin 1000 \<and> k' = 1)"
proof -
  have h: "set [1, 0, 1] \<subseteq> {..<num_vertices path_graph}"
    by (simp add: num_vertices_def path_graph_def)
  from populate_frame[OF h, of path_si 0]
  obtain gr' path k' where
    run: "populateOmplPathfromVertexPath path_si 0 [1, 0, 1] path_graph = Some (gr', path, k')"
    and fr: "\<forall>v < num_vertices path_graph.
        state (vertices gr' ! v) = state (vertices path_graph ! v) \<and>
        control_duration (vertices gr' ! v) = control_duration (vertices path_graph ! v) \<and>
        vertex_id (vertices gr' ! v) = vertex_id (vertices path_graph ! v) \<and>
        g_value (vertices gr' ! v) = g_value (vertices path_graph ! v) \<and>
        blacklisted (vertices gr' ! v) = blacklisted (vertices path_graph ! v) \<and>
        (control (vertices path_graph ! v) \<noteq> None \<longrightarrow>
           control (vertices gr' ! v) = control (vertices path_graph ! v)) \<and>
        (v \<notin> set [1, 0, 1] \<longrightarrow> vertices gr' ! v = vertices path_graph ! v) \<and>
        (v \<in> set [1, 0, 1] \<and> control (vertices path_graph ! v) = None \<longrightarrow>
           (\<exists>j. 0 \<le> j \<and> j < k' \<and> control (vertices gr' ! v) = Some (allocControl path_si j)))"
    by blast
  have n: "num_vertices path_graph = 2" by (simp add: num_vertices_def path_graph_def)
  from fr n have f1: "state (vertices gr' ! 1) = 11 \<and> control_duration (vertices gr' ! 1) = 0 \<and>
      g_value (vertices gr' ! 1) = Fin 1000"
    by (simp add: path_graph_def)
  from fr n have f0: "control (vertices gr' ! 0) = Some 7"
    by (simp add: path_graph_def)
  have "populateOmplPathfromVertexPath path_si 0 [1, 0, 1] path_graph =
     Some (path_graph\<lparr>vertices := (vertices path_graph)[1 := (vertices path_graph ! 1)\<lparr>control := Some 100\<rparr>]\<rparr>,
           \<lparr>states = [11, 10, 11], controls = [7, 100], controlDurations = [3 / 2, 0]\<rparr>, 1)"
    by (simp add: populateOmplPathfromVertexPath_def path_graph_def path_si_def empty_path_def
      num_vertices_def ensure_control_def append_vertex_def append_state_def append_control_def)
  with run have "k' = 1" "control (vertices gr' ! 1) = Some 100"
    by (simp_all add: path_graph_def)
  with run f1 f0 h show ?thesis by simp
qed

section \<open>The state propagator: the claim\<close>



section \<open>The invariant of the predecessor and distance vectors\<close>

lemma cost_less_irrefl: "\<not> cost_less a a"
  by (cases a) simp_all

lemma cost_less_trans: "cost_less a b \<Longrightarrow> cost_less b c \<Longrightarrow> cost_less a c"
  by (cases a; cases b; cases c) simp_all

lemma cost_less_le_trans: "cost_less a b \<Longrightarrow> \<not> cost_less c b \<Longrightarrow> cost_less a c"
  by (cases a; cases b; cases c) simp_all

lemma cost_le_less_trans: "\<not> cost_less b a \<Longrightarrow> cost_less b c \<Longrightarrow> cost_less a c"
  by (cases a; cases b; cases c) simp_all

lemma cost_le_trans: "\<not> cost_less b a \<Longrightarrow> \<not> cost_less c b \<Longrightarrow> \<not> cost_less c a"
  by (cases a; cases b; cases c) simp_all

text \<open>A relaxation that succeeds adds a finite weight to a finite distance.\<close>

lemma relax_success:
  assumes "cost_less (closed_plus du w) dv" and "dv \<noteq> PosInf" and "\<not> cost_less w (Fin 0)"
  obtains a b where "du = Fin a" "w = Fin b" "0 \<le> b" "closed_plus du w = Fin (a + b)"
  using assms by (cases du; cases w; cases dv) auto

lemma pred_rel_mono_dist:
  assumes inv: "pd_inv p d" and r: "(a, b) \<in> (pred_rel p)\<^sup>*"
  shows "\<not> cost_less (d ! b) (d ! a)"
  using r
proof (induction rule: rtrancl_induct)
  case base
  show ?case by (rule cost_less_irrefl)
next
  case (step y z)
  from step.hyps(2) have "z < length p" "p ! z \<noteq> z" "y = p ! z"
    by (auto simp: pred_rel_def)
  with inv have "\<not> cost_less (d ! z) (d ! y)" by (simp add: pd_inv_def)
  with step.IH show ?case by (rule cost_le_trans)
qed

lemma pred_rel_update:
  assumes "v < length p" "u \<noteq> v"
  shows "pred_rel (p[v := u]) = insert (u, v) (pred_rel p - {(p ! v, v)})"
proof (rule set_eqI, clarify)
  fix a b
  show "(a, b) \<in> pred_rel (p[v := u]) \<longleftrightarrow> (a, b) \<in> insert (u, v) (pred_rel p - {(p ! v, v)})"
  proof (cases "b = v")
    case True
    with assms show ?thesis by (auto simp: pred_rel_def)
  next
    case False
    with assms show ?thesis by (auto simp: pred_rel_def nth_list_update)
  qed
qed

lemma relax_target_inv:
  assumes inv: "pd_inv (pmap st) (dmap st)"
    and u: "u < length (pmap st)" and v: "v < length (pmap st)"
    and w: "\<not> cost_less w (Fin 0)"
    and r: "relax_target u v w st = (st', b)"
  shows "pd_inv (pmap st') (dmap st')"
proof (cases "cost_less (closed_plus (dmap st ! u) w) (dmap st ! v)")
  case False
  with r inv show ?thesis by (simp add: relax_target_def)
next
  case True
  let ?p = "pmap st" and ?d = "dmap st"
  from inv have len: "length ?d = length ?p" and nin: "?d ! v \<noteq> PosInf"
    using v by (simp_all add: pd_inv_def)
  from True nin w obtain a c where du: "?d ! u = Fin a" and wf: "w = Fin c" and c: "0 \<le> c"
    and sum: "closed_plus (?d ! u) w = Fin (a + c)"
    by (rule relax_success)
  have lt: "cost_less (Fin (a + c)) (?d ! v)" using True sum by simp
  have uv_lt: "cost_less (?d ! u) (?d ! v)"
    using lt du c by (cases "?d ! v") simp_all
  have neq: "u \<noteq> v" using uv_lt cost_less_irrefl by auto
  from r True sum have st': "pmap st' = ?p[v := u]" "dmap st' = ?d[v := Fin (a + c)]"
    by (auto simp: relax_target_def)
  have d'u: "(?d[v := Fin (a + c)]) ! u = Fin a" using neq du by simp
  have "acyclic (pred_rel ?p - {(?p ! v, v)})"
    using inv by (auto simp: pd_inv_def intro: acyclic_subset)
  moreover have "(v, u) \<notin> (pred_rel ?p - {(?p ! v, v)})\<^sup>*"
  proof
    assume "(v, u) \<in> (pred_rel ?p - {(?p ! v, v)})\<^sup>*"
    then have "(v, u) \<in> (pred_rel ?p)\<^sup>*"
      by (rule rtrancl_mono[THEN subsetD, rotated]) auto
    from pred_rel_mono_dist[OF inv this] uv_lt show False by simp
  qed
  ultimately have acyc: "acyclic (pred_rel (?p[v := u]))"
    using pred_rel_update[OF v neq] by simp
  have mono: "(?d[v := Fin (a + c)]) ! x \<noteq> DblMax \<and>
      \<not> cost_less ((?d[v := Fin (a + c)]) ! x) ((?d[v := Fin (a + c)]) ! ((?p[v := u]) ! x))"
    if x: "x < length ?p" and px: "(?p[v := u]) ! x \<noteq> x" for x
  proof (cases "x = v")
    case True
    with v len d'u c show ?thesis by simp
  next
    case False
    with px x have px': "?p ! x \<noteq> x" by simp
    with inv x have old: "?d ! x \<noteq> DblMax" "\<not> cost_less (?d ! x) (?d ! (?p ! x))"
      by (simp_all add: pd_inv_def)
    show ?thesis
    proof (cases "?p ! x = v")
      case True
      have "\<not> cost_less (?d ! x) (Fin (a + c))"
        using old(2) True lt cost_less_trans by blast
      with False True old v len show ?thesis by simp
    next
      case pv: False
      with False old show ?thesis by simp
    qed
  qed
  have rng: "(?p[v := u]) ! x < length ?p" if "x < length ?p" for x
    using that inv u by (cases "x = v") (simp_all add: pd_inv_def)
  have ninf: "(?d[v := Fin (a + c)]) ! x \<noteq> PosInf" if "x < length ?p" for x
    using that inv len by (cases "x = v") (simp_all add: pd_inv_def)
  show ?thesis
    unfolding pd_inv_def st' using len rng ninf mono acyc by simp
qed

lemma relax_target_root:
  assumes inv: "pd_inv (pmap st) (dmap st)" and root: "root_inv s (pmap st) (dmap st)"
    and u: "u < length (pmap st)" and v: "v < length (pmap st)"
    and w: "\<not> cost_less w (Fin 0)"
    and r: "relax_target u v w st = (st', b)"
  shows "root_inv s (pmap st') (dmap st')"
proof (cases "cost_less (closed_plus (dmap st ! u) w) (dmap st ! v)")
  case False
  with r root show ?thesis by (simp add: relax_target_def)
next
  case True
  let ?p = "pmap st" and ?d = "dmap st"
  from inv have len: "length ?d = length ?p" and nin: "?d ! v \<noteq> PosInf"
    using v by (simp_all add: pd_inv_def)
  from True nin w obtain a c where du: "?d ! u = Fin a" and wf: "w = Fin c" and c: "0 \<le> c"
    and sum: "closed_plus (?d ! u) w = Fin (a + c)"
    by (rule relax_success)
  have a: "0 \<le> a" using root u du by (auto simp: root_inv_def)
  have lt: "cost_less (Fin (a + c)) (?d ! v)" using True sum by simp
  have vs: "v \<noteq> s"
  proof
    assume "v = s"
    with root have "?d ! v = Fin 0" by (simp add: root_inv_def)
    with lt a c show False by simp
  qed
  have uv: "u \<noteq> v"
  proof
    assume "u = v"
    with lt du c show False by simp
  qed
  from r True sum have st': "pmap st' = ?p[v := u]" "dmap st' = ?d[v := Fin (a + c)]"
    by (auto simp: relax_target_def)
  have nonneg: "\<not> cost_less ((?d[v := Fin (a + c)]) ! x) (Fin 0)" if "x < length ?p" for x
    using that root len a c by (cases "x = v") (simp_all add: root_inv_def)
  have self: "(?p[v := u]) ! x \<noteq> x"
    if "x < length ?p" "x \<noteq> s" "(?d[v := Fin (a + c)]) ! x \<noteq> DblMax" for x
    using that root len uv by (cases "x = v") (simp_all add: root_inv_def)
  show ?thesis
    unfolding root_inv_def st' using root vs len nonneg self by (simp add: root_inv_def)
qed

lemma relax_root:
  assumes inv: "pd_inv (pmap st) (dmap st)" and root: "root_inv s (pmap st) (dmap st)"
    and u: "u < length (pmap st)" and v: "v < length (pmap st)"
    and w: "\<not> cost_less w (Fin 0)"
    and r: "relax u v w st = (st', b)"
  shows "root_inv s (pmap st') (dmap st')"
  using r relax_target_root[OF inv root u v w] relax_target_root[OF inv root v u w] root
  by (auto simp: relax_def split: if_splits)

lemma root_inv_init:
  assumes "s < n"
  shows "root_inv s [0..<n] ((replicate n DblMax)[s := Fin 0])"
proof -
  have at: "((replicate n DblMax)[s := Fin 0]) ! v = (if v = s then Fin 0 else DblMax)"
    if "v < n" for v
    using that by (simp add: nth_list_update)
  show ?thesis using assms by (simp add: root_inv_def at)
qed

lemma relax_target_length:
  "relax_target u v w st = (st', b) \<Longrightarrow>
   length (pmap st') = length (pmap st) \<and> examined st' = examined st \<and> verts st' = verts st"
  by (auto simp: relax_target_def split: if_splits)

lemma relax_inv:
  assumes inv: "pd_inv (pmap st) (dmap st)"
    and u: "u < length (pmap st)" and v: "v < length (pmap st)"
    and w: "\<not> cost_less w (Fin 0)"
    and r: "relax u v w st = (st', b)"
  shows "pd_inv (pmap st') (dmap st')"
  using r relax_target_inv[OF inv u v w] relax_target_inv[OF inv v u w] inv
  by (auto simp: relax_def split: if_splits)

lemma relax_length:
  "relax u v w st = (st', b) \<Longrightarrow>
   length (pmap st') = length (pmap st) \<and> examined st' = examined st \<and> verts st' = verts st"
  using relax_target_length by (fastforce simp: relax_def split: if_splits)

section \<open>Dijkstra's algorithm keeps the invariant\<close>

lemma out_edges_range: "v \<in> set (out_edges u gr) \<Longrightarrow> v < num_vertices gr"
  by (simp add: out_edges_def)

lemma dijkstra_edge_inv:
  assumes inv: "search_inv gr s st" and u: "u < num_vertices gr" and v: "v < num_vertices gr"
    and w: "\<not> cost_less w (Fin 0)" and q: "set q \<subseteq> {..<num_vertices gr}"
    and e: "dijkstra_edge u v w (st, col, q) = (st', col', q')"
  shows "search_inv gr s st' \<and> set q' \<subseteq> {..<num_vertices gr} \<and>
         examined st' = examined st \<and> verts st' = verts st"
proof -
  obtain st1 b where r: "relax_target u v w st = (st1, b)"
    by (cases "relax_target u v w st") auto
  from inv u v have uv: "u < length (pmap st)" "v < length (pmap st)"
    by (simp_all add: search_inv_def)
  from inv have pd: "pd_inv (pmap st) (dmap st)" and rt: "root_inv s (pmap st) (dmap st)"
    by (simp_all add: search_inv_def)
  from relax_target_inv[OF pd uv w r] relax_target_root[OF pd rt uv w r] relax_target_length[OF r] inv
  have inv1: "search_inv gr s st1" "examined st1 = examined st" "verts st1 = verts st"
    by (simp_all add: search_inv_def)
  show ?thesis
  proof (cases "col v")
    case White
    with e r have "st' = st1" "q' = q @ [v]" by (auto simp: dijkstra_edge_def)
    with inv1 q v show ?thesis by simp
  next
    case Gray
    with e r have "st' = st1" "q' = q" by (auto simp: dijkstra_edge_def)
    with inv1 q show ?thesis by simp
  next
    case Black
    with e have "st' = st" "q' = q" by (auto simp: dijkstra_edge_def)
    with inv q show ?thesis by simp
  qed
qed

lemma negative_weight:
  assumes "edge_weight gr e = Some w" "cost_less w (Fin 0)"
  shows "\<not> nonneg_weights gr"
  using assms unfolding nonneg_weights_def by blast

lemma dijkstra_edges_inv:
  assumes u: "u < num_vertices gr"
  shows "search_inv gr s st \<Longrightarrow> set vs \<subseteq> {..<num_vertices gr} \<Longrightarrow> set q \<subseteq> {..<num_vertices gr} \<Longrightarrow>
    (case dijkstra_edges gr u vs (st, col, q) of
       None \<Rightarrow> \<not> nonneg_weights gr
     | Some (st', col', q') \<Rightarrow>
         search_inv gr s st' \<and> set q' \<subseteq> {..<num_vertices gr} \<and>
         examined st' = examined st \<and> verts st' = verts st)"
proof (induction vs arbitrary: st col q)
  case Nil
  then show ?case by simp
next
  case (Cons v vs)
  show ?case
  proof (cases "edge_weight gr (ekey u v)")
    case None
    with Cons show ?thesis by simp
  next
    case (Some w)
    show ?thesis
    proof (cases "cost_less (closed_plus (Fin 0) w) (Fin 0)")
      case True
      then have "cost_less w (Fin 0)" by (cases w) simp_all
      with Some have "\<not> nonneg_weights gr" by (rule negative_weight)
      with Some True show ?thesis by simp
    next
      case False
      then have w: "\<not> cost_less w (Fin 0)" by (cases w) simp_all
      obtain st1 col1 q1 where e: "dijkstra_edge u v w (st, col, q) = (st1, col1, q1)"
        by (cases "dijkstra_edge u v w (st, col, q)") auto
      have v: "v < num_vertices gr" using Cons.prems(2) by simp
      from dijkstra_edge_inv[OF Cons.prems(1) u v w Cons.prems(3) e]
      have s1: "search_inv gr s st1" "set q1 \<subseteq> {..<num_vertices gr}"
        "examined st1 = examined st" "verts st1 = verts st" by simp_all
      from Cons.IH[OF s1(1) _ s1(2), of col1] Cons.prems(2)
      have "case dijkstra_edges gr u vs (st1, col1, q1) of
         None \<Rightarrow> \<not> nonneg_weights gr
       | Some (st', col', q') \<Rightarrow>
           search_inv gr s st' \<and> set q' \<subseteq> {..<num_vertices gr} \<and>
           examined st' = examined st1 \<and> verts st' = verts st1" by simp
      with Some False e s1 show ?thesis by (auto split: option.splits)
    qed
  qed
qed

lemma dijkstra_loop_exit:
  "search_inv gr s st \<Longrightarrow> set q \<subseteq> {..<num_vertices gr} \<Longrightarrow> goal_vertex \<notin> set (examined st) \<Longrightarrow>
    verts st = vertices gr \<Longrightarrow>
    exit_inv gr s goal_vertex (dijkstra_loop gr goal_vertex (st, col, q)) \<and>
    (\<forall>st'. dijkstra_loop gr goal_vertex (st, col, q) \<in> {FoundVertex st', Exhausted st'} \<longrightarrow>
       verts st' = vertices gr)"
proof (induction gr goal_vertex "(st, col, q)" arbitrary: st col q rule: dijkstra_loop.induct)
  case (1 gr goal_vertex st col q)
  note prems = "1.prems"
  show ?case
  proof (cases q)
    case Nil
    with prems show ?thesis by (simp add: exit_inv_def)
  next
    case (Cons q0 qs)
    define u where "u = min_vertex (dmap st) q0 qs"
    define st1 where "st1 = st\<lparr>examined := u # examined st\<rparr>"
    have uq: "u \<in> set q" using min_vertex_mem[of "dmap st" q0 qs] Cons by (simp add: u_def)
    then have u: "u < num_vertices gr" using prems(2) by auto
    have ex: "examine_vertex goal_vertex u st = (st1, u = goal_vertex)"
      by (simp add: examine_vertex_def st1_def)
    have inv1: "search_inv gr s st1" using prems(1) by (simp add: search_inv_def st1_def)
    show ?thesis
    proof (cases "u = goal_vertex")
      case True
      then have "dijkstra_loop gr goal_vertex (st, col, q) = FoundVertex st1"
        using Cons ex by (simp add: u_def[symmetric])
      moreover have "goal_vertex \<in> set (examined st1)" using True by (simp add: st1_def)
      moreover have "verts st1 = vertices gr" using prems(4) by (simp add: st1_def)
      ultimately show ?thesis using inv1 by (simp add: exit_inv_def)
    next
      case False
      have q1: "set (remove1 u q) \<subseteq> {..<num_vertices gr}"
        using prems(2) set_remove1_subset[of u q] by blast
      have oe: "set (out_edges u gr) \<subseteq> {..<num_vertices gr}"
        using out_edges_range by auto
      note edges = dijkstra_edges_inv[OF u inv1 oe q1, of col]
      show ?thesis
      proof (cases "dijkstra_edges gr u (out_edges u gr) (st1, col, remove1 u q)")
        case None
        then have "dijkstra_loop gr goal_vertex (st, col, q) = NegativeEdge"
          using Cons ex False by (simp add: u_def[symmetric])
        moreover have "\<not> nonneg_weights gr" using edges None by simp
        ultimately show ?thesis by (simp add: exit_inv_def)
      next
        case (Some sq2)
        obtain st2 col2 q2 where sq2: "sq2 = (st2, col2, q2)" by (cases sq2) auto
        note e = Some[unfolded sq2]
        from edges e have inv2: "search_inv gr s st2" and q2: "set q2 \<subseteq> {..<num_vertices gr}"
          and ex2: "examined st2 = examined st1" and vs2: "verts st2 = verts st1"
          by simp_all
        have g2: "goal_vertex \<notin> set (examined st2)"
          using ex2 False prems(3) by (simp add: st1_def)
        have v2: "verts st2 = vertices gr" using vs2 prems(4) by (simp add: st1_def)
        have step: "dijkstra_loop gr goal_vertex (st, col, q) =
            dijkstra_loop gr goal_vertex (st2, col2(u := Black), q2)"
          using Cons ex e False by (simp add: u_def[symmetric])
        have "exit_inv gr s goal_vertex (dijkstra_loop gr goal_vertex (st2, col2(u := Black), q2)) \<and>
          (\<forall>st'. dijkstra_loop gr goal_vertex (st2, col2(u := Black), q2) \<in> {FoundVertex st', Exhausted st'} \<longrightarrow>
             verts st' = vertices gr)"
          using Cons u_def ex[symmetric] False e inv2 q2 g2 v2
          by (intro "1.hyps"[of q0 qs u "(st1, False)" st1 False "(st2, col2, q2)" st2 "(col2, q2)" col2 q2])
            simp_all
        with step show ?thesis by simp
      qed
    qed
  qed
qed

section \<open>The tree search keeps the invariant\<close>

lemma pd_inv_init:
  assumes "s < n"
  shows "pd_inv [0..<n] ((replicate n DblMax)[s := Fin 0])"
proof -
  have "pred_rel [0..<n] = {}" by (auto simp: pred_rel_def)
  moreover have "((replicate n DblMax)[s := Fin 0]) ! v \<noteq> PosInf" if "v < n" for v
    using that by (cases "v = s") simp_all
  ultimately show ?thesis by (simp add: pd_inv_def acyclic_def)
qed

lemma dijkstra_shortest_paths_exit:
  assumes s: "s < num_vertices gr"
  shows "exit_inv gr s goal_vertex (dijkstra_shortest_paths gr s goal_vertex) \<and>
    (\<forall>st'. dijkstra_shortest_paths gr s goal_vertex \<in> {FoundVertex st', Exhausted st'} \<longrightarrow>
       verts st' = vertices gr)"
proof -
  let ?st = "\<lparr>pmap = [0..<num_vertices gr], dmap = (replicate (num_vertices gr) DblMax)[s := Fin 0],
       examined = [], verts = vertices gr\<rparr>"
  have "search_inv gr s ?st"
    using pd_inv_init[OF s] root_inv_init[OF s] by (simp add: search_inv_def num_vertices_def)
  moreover have "set [s] \<subseteq> {..<num_vertices gr}" using s by simp
  ultimately show ?thesis
    unfolding dijkstra_shortest_paths_def dijkstra_init_def
    by (intro dijkstra_loop_exit) simp_all
qed

lemma heuristic_value_length:
  "heuristic_value env h i vs = (c, vs') \<Longrightarrow> length vs' = length vs"
  by (cases h) (auto split: if_splits)

lemma astar_edge_inv:
  assumes inv: "search_inv gr s st" and v: "v < num_vertices gr" and w: "w < num_vertices gr"
    and e: "\<not> cost_less e_weight (Fin 0)" and q: "snd ` set q \<subseteq> {..<num_vertices gr}"
    and a: "astar_edge env h v w e_weight (st, q) = (st', q')"
  shows "search_inv gr s st' \<and> snd ` set q' \<subseteq> {..<num_vertices gr} \<and> examined st' = examined st"
proof -
  obtain st1 b where r: "relax v w e_weight st = (st1, b)"
    by (cases "relax v w e_weight st") auto
  from inv v w have vw: "v < length (pmap st)" "w < length (pmap st)"
    by (simp_all add: search_inv_def)
  from inv have pd: "pd_inv (pmap st) (dmap st)" and rt: "root_inv s (pmap st) (dmap st)"
    by (simp_all add: search_inv_def)
  from relax_inv[OF pd vw e r] relax_root[OF pd rt vw e r] relax_length[OF r] inv
  have inv1: "search_inv gr s st1" "examined st1 = examined st"
    by (simp_all add: search_inv_def)
  show ?thesis
  proof (cases b)
    case False
    with a r have "st' = st1" "q' = q" by (auto simp: astar_edge_def)
    with inv1 q show ?thesis by simp
  next
    case True
    obtain hw vs where hv: "heuristic_value env h w (verts st1) = (hw, vs)"
      by (cases "heuristic_value env h w (verts st1)") auto
    with a r True have "st' = st1\<lparr>verts := vs\<rparr>" "q' = q @ [(closed_plus (dmap st1 ! w) hw, w)]"
      by (auto simp: astar_edge_def)
    with inv1 q w heuristic_value_length[OF hv] show ?thesis
      by (simp add: search_inv_def)
  qed
qed

lemma astar_edges_inv:
  assumes v: "v < num_vertices gr"
  shows "search_inv gr s st \<Longrightarrow> set ws \<subseteq> {..<num_vertices gr} \<Longrightarrow>
    snd ` set q \<subseteq> {..<num_vertices gr} \<Longrightarrow>
    (case astar_edges env h gr v ws (st, q) of
       None \<Rightarrow> \<not> nonneg_weights gr
     | Some (st', q') \<Rightarrow>
         search_inv gr s st' \<and> snd ` set q' \<subseteq> {..<num_vertices gr} \<and>
         examined st' = examined st)"
proof (induction ws arbitrary: st q)
  case Nil
  then show ?case by simp
next
  case (Cons w ws)
  show ?case
  proof (cases "edge_weight gr (ekey v w)")
    case None
    with Cons show ?thesis by simp
  next
    case (Some e_weight)
    show ?thesis
    proof (cases "cost_less e_weight (Fin 0)")
      case True
      with Some have "\<not> nonneg_weights gr" by (rule negative_weight)
      with Some True show ?thesis by simp
    next
      case e: False
      obtain st1 q1 where a: "astar_edge env h v w e_weight (st, q) = (st1, q1)"
        by (cases "astar_edge env h v w e_weight (st, q)") auto
      have w: "w < num_vertices gr" using Cons.prems(2) by simp
      from astar_edge_inv[OF Cons.prems(1) v w e Cons.prems(3) a]
      have s1: "search_inv gr s st1" "snd ` set q1 \<subseteq> {..<num_vertices gr}"
        "examined st1 = examined st" by simp_all
      from Cons.IH[OF s1(1) _ s1(2)] Cons.prems(2)
      have "case astar_edges env h gr v ws (st1, q1) of
         None \<Rightarrow> \<not> nonneg_weights gr
       | Some (st', q') \<Rightarrow>
           search_inv gr s st' \<and> snd ` set q' \<subseteq> {..<num_vertices gr} \<and>
           examined st' = examined st1" by simp
      with Some e a s1 show ?thesis by (auto split: option.splits)
    qed
  qed
qed

lemma min_rank_mem: "min_rank x ys \<in> set (x # ys)"
  by (induction ys arbitrary: x) auto

lemmas astar_loop_induct = astar_loop.raw_induct[rotated, consumes 1, case_names step]

lemma astar_loop_exit:
  assumes run: "astar_loop env h gr goal_vertex sq = Some ex"
    and inv: "search_inv gr s (fst sq)" "snd ` set (snd sq) \<subseteq> {..<num_vertices gr}"
      "goal_vertex \<notin> set (examined (fst sq))"
  shows "exit_inv gr s goal_vertex ex"
  using run inv
proof (induction rule: astar_loop_induct)
  case (step astar_loop env h gr goal_vertex sq ex)
  obtain st q where sq: "sq = (st, q)" by (cases sq) auto
  have inv: "search_inv gr s st" "snd ` set q \<subseteq> {..<num_vertices gr}"
    "goal_vertex \<notin> set (examined st)"
    using step.prems sq by simp_all
  show ?case
  proof (cases q)
    case Nil
    with step.hyps sq inv show ?thesis by (auto simp: exit_inv_def)
  next
    case (Cons q0 qs)
    obtain v_rank v where mr: "min_rank q0 qs = (v_rank, v)"
      by (cases "min_rank q0 qs") auto
    define st1 where "st1 = st\<lparr>examined := v # examined st\<rparr>"
    have "(v_rank, v) \<in> set q" using min_rank_mem[of q0 qs] mr Cons by simp
    then have v: "v < num_vertices gr" using inv(2) by force
    have ex: "examine_vertex goal_vertex v st = (st1, v = goal_vertex)"
      by (simp add: examine_vertex_def st1_def)
    have inv1: "search_inv gr s st1" using inv(1) by (simp add: search_inv_def st1_def)
    show ?thesis
    proof (cases "v = goal_vertex")
      case True
      with step.hyps sq Cons mr ex have "ex = FoundVertex st1" by simp
      moreover have "goal_vertex \<in> set (examined st1)" using True by (simp add: st1_def)
      ultimately show ?thesis using inv1 by (simp add: exit_inv_def)
    next
      case False
      have q1: "snd ` set (remove1 (v_rank, v) q) \<subseteq> {..<num_vertices gr}"
        using inv(2) set_remove1_subset[of "(v_rank, v)" q] by blast
      have oe: "set (out_edges v gr) \<subseteq> {..<num_vertices gr}"
        using out_edges_range by auto
      note edges = astar_edges_inv[OF v inv1 oe q1, of env h]
      show ?thesis
      proof (cases "astar_edges env h gr v (out_edges v gr) (st1, remove1 (v_rank, v) q)")
        case None
        with step.hyps sq Cons mr ex False have "ex = NegativeEdge" by simp
        moreover have "\<not> nonneg_weights gr" using edges None by simp
        ultimately show ?thesis by (simp add: exit_inv_def)
      next
        case (Some sq2)
        obtain st2 q2 where sq2: "sq2 = (st2, q2)" by (cases sq2) auto
        note e = Some[unfolded sq2]
        from edges e have inv2: "search_inv gr s st2" and q2: "snd ` set q2 \<subseteq> {..<num_vertices gr}"
          and ex2: "examined st2 = examined st1"
          by simp_all
        have g2: "goal_vertex \<notin> set (examined st2)"
          using ex2 False inv(3) by (simp add: st1_def)
        from step.hyps sq Cons mr ex False e
        have "astar_loop env h gr goal_vertex (st2, q2) = Some ex" by simp
        from step.IH[OF this] inv2 q2 g2 show ?thesis by simp
      qed
    qed
  qed
qed

section \<open>The tree search ends\<close>

text \<open>Weights of lists of vertices.\<close>

lemma path_step_nonneg: "0 \<le> path_step gr u v"
  by (simp add: path_step_def split: option.splits cost.splits)

lemma path_weight_nonneg: "0 \<le> path_weight gr xs"
  by (induction gr xs rule: path_weight.induct) (simp_all add: path_step_nonneg)

lemma path_weight_snoc:
  "xs \<noteq> [] \<Longrightarrow> path_weight gr (xs @ [v]) = path_weight gr xs + path_step gr (last xs) v"
  by (induction gr xs rule: path_weight.induct) simp_all

lemma path_weight_take: "path_weight gr (take k xs) \<le> path_weight gr xs"
proof (induction gr xs arbitrary: k rule: path_weight.induct)
  case (1 gr x y zs)
  show ?case
  proof (cases k)
    case 0
    then show ?thesis by (simp add: path_weight_nonneg path_step_nonneg)
  next
    case (Suc j)
    show ?thesis
    proof (cases j)
      case 0
      with Suc show ?thesis by (simp add: path_weight_nonneg path_step_nonneg)
    next
      case (Suc i)
      with \<open>k = Suc j\<close> "1.IH"[of j] show ?thesis by simp
    qed
  qed
next
  case (2 gr x)
  then show ?case by (cases k) simp_all
next
  case (3 gr)
  then show ?case by simp
qed

lemma finite_simple_paths: "finite (simple_paths gr)"
proof -
  have "simple_paths gr \<subseteq> {xs. set xs \<subseteq> {..<num_vertices gr} \<and> length xs \<le> num_vertices gr}"
  proof
    fix xs assume "xs \<in> simple_paths gr"
    then have d: "distinct xs" and s: "set xs \<subseteq> {..<num_vertices gr}"
      by (simp_all add: simple_paths_def)
    have "length xs = card (set xs)" using d by (simp add: distinct_card)
    also have "\<dots> \<le> card {..<num_vertices gr}" using s by (intro card_mono) simp_all
    finally show "xs \<in> {xs. set xs \<subseteq> {..<num_vertices gr} \<and> length xs \<le> num_vertices gr}"
      using s by simp
  qed
  then show ?thesis by (rule finite_subset) (simp add: finite_lists_length_le)
qed

lemma finite_path_weights: "finite (path_weights gr)"
  by (simp add: path_weights_def finite_simple_paths)

lemma ekey_commute: "ekey u v = ekey v u"
  by (simp add: ekey_def min.commute max.commute)

lemma path_step_edge:
  "edge_weight gr (ekey u v) = Some (Fin b) \<Longrightarrow> 0 \<le> b \<Longrightarrow> path_step gr u v = b"
  by (simp add: path_step_def)

text \<open>
  A relaxation that succeeds keeps every distance witnessed by a list of distinct
  vertices: the list of the relaxed vertex is the list of the other end of the edge with
  the vertex appended, and the vertex cannot be on that list already, because its
  distance would then be at most the new one.
\<close>

lemma dist_witness_lower:
  assumes w: "dist_witness gr d x xs" and x: "x \<noteq> v" and lt: "cost_less (Fin c) (d ! v)"
    and v: "v < length d"
  shows "dist_witness gr (d[v := Fin c]) x xs"
proof -
  have pre: "\<not> cost_less (Fin (path_weight gr (take (Suc k) xs))) ((d[v := Fin c]) ! (xs ! k))"
    if k: "k < length xs" for k
  proof (cases "xs ! k = v")
    case False
    with w k show ?thesis by (simp add: dist_witness_def)
  next
    case True
    from w k True have "\<not> cost_less (Fin (path_weight gr (take (Suc k) xs))) (d ! v)"
      by (auto simp: dist_witness_def)
    with lt have "\<not> cost_less (Fin (path_weight gr (take (Suc k) xs))) (Fin c)"
      by (cases "d ! v") simp_all
    with True v show ?thesis by simp
  qed
  from w x have "(d[v := Fin c]) ! x = Fin (path_weight gr xs)"
    by (simp add: dist_witness_def)
  with w pre show ?thesis by (simp add: dist_witness_def)
qed

lemma dist_witness_extend:
  assumes w: "dist_witness gr d u xs" and n: "length d = num_vertices gr"
    and v: "v < num_vertices gr"
    and e: "edge_weight gr (ekey u v) = Some (Fin b)" "0 \<le> b"
    and du: "d ! u = Fin a" and lt: "cost_less (Fin (a + b)) (d ! v)"
  shows "dist_witness gr (d[v := Fin (a + b)]) v (xs @ [v])"
proof -
  from w have sp: "distinct xs" "set xs \<subseteq> {..<num_vertices gr}" and ne: "xs \<noteq> []"
    and l: "last xs = u" and pw: "d ! u = Fin (path_weight gr xs)"
    and pre: "\<And>k. k < length xs \<Longrightarrow>
      \<not> cost_less (Fin (path_weight gr (take (Suc k) xs))) (d ! (xs ! k))"
    by (simp_all add: dist_witness_def simple_paths_def)
  from pw du have a: "a = path_weight gr xs" by simp
  have notin: "v \<notin> set xs"
  proof
    assume "v \<in> set xs"
    then obtain k where k: "k < length xs" "xs ! k = v" by (auto simp: in_set_conv_nth)
    from pre[OF k(1)] k(2) have "\<not> cost_less (Fin (path_weight gr (take (Suc k) xs))) (d ! v)"
      by simp
    moreover have "path_weight gr (take (Suc k) xs) \<le> a + b"
      using path_weight_take[of gr "Suc k" xs] a e(2) by simp
    ultimately show False using lt by (cases "d ! v") simp_all
  qed
  have w': "path_weight gr (xs @ [v]) = a + b"
    using path_weight_snoc[OF ne, of gr v] l path_step_edge[OF e] a by simp
  have simple: "xs @ [v] \<in> simple_paths gr"
    using sp notin v by (simp add: simple_paths_def)
  have vl: "v < length d" using v n by simp
  have pre': "\<not> cost_less (Fin (path_weight gr (take (Suc k) (xs @ [v]))))
      ((d[v := Fin (a + b)]) ! ((xs @ [v]) ! k))"
    if k: "k < length (xs @ [v])" for k
  proof (cases "k < length xs")
    case True
    then have "xs ! k \<noteq> v" using notin by (auto simp: in_set_conv_nth)
    with True pre[OF True] show ?thesis by (simp add: nth_append)
  next
    case False
    with k have "k = length xs" by simp
    then show ?thesis using w' vl by (simp add: nth_append)
  qed
  show ?thesis
    unfolding dist_witness_def using simple w' vl pre' by simp
qed

lemma witnessed_relax:
  assumes wit: "witnessed gr d" and u: "u < num_vertices gr" and v: "v < num_vertices gr"
    and e: "edge_weight gr (ekey u v) = Some (Fin b)" "0 \<le> b"
    and du: "d ! u = Fin a" and lt: "cost_less (Fin (a + b)) (d ! v)"
  shows "witnessed gr (d[v := Fin (a + b)]) \<and> a + b \<in> path_weights gr"
proof -
  from wit have n: "length d = num_vertices gr" by (simp add: witnessed_def)
  from wit u du obtain xs where xs: "dist_witness gr d u xs"
    by (auto simp: witnessed_def)
  note new = dist_witness_extend[OF xs n v e du lt]
  have vl: "v < length d" using v n by simp
  have "(d[v := Fin (a + b)]) ! x = DblMax \<or> (\<exists>ys. dist_witness gr (d[v := Fin (a + b)]) x ys)"
    if x: "x < num_vertices gr" for x
  proof (cases "x = v")
    case True
    with new show ?thesis by blast
  next
    case False
    from wit x have "d ! x = DblMax \<or> (\<exists>ys. dist_witness gr d x ys)"
      by (simp add: witnessed_def)
    then show ?thesis
    proof
      assume "d ! x = DblMax"
      with False show ?thesis by simp
    next
      assume "\<exists>ys. dist_witness gr d x ys"
      then obtain ys where "dist_witness gr d x ys" ..
      from dist_witness_lower[OF this False lt vl] show ?thesis by blast
    qed
  qed
  then have "witnessed gr (d[v := Fin (a + b)])" using n by (simp add: witnessed_def)
  moreover have "a + b \<in> path_weights gr"
  proof -
    from new have "xs @ [v] \<in> simple_paths gr" "(d[v := Fin (a + b)]) ! v = Fin (path_weight gr (xs @ [v]))"
      by (simp_all add: dist_witness_def)
    with vl show ?thesis by (auto simp: path_weights_def)
  qed
  ultimately show ?thesis by simp
qed

text \<open>A relaxation that succeeds lowers the potential.\<close>

lemma cost_less_lower: "x < c \<Longrightarrow> cost_less (Fin c) y \<Longrightarrow> cost_less (Fin x) y"
  by (cases y) simp_all

lemma potential_relax:
  assumes n: "length d = num_vertices gr" and v: "v < num_vertices gr"
    and c: "c \<in> path_weights gr" and lt: "cost_less (Fin c) (d ! v)"
  shows "potential gr (d[v := Fin c]) < potential gr d"
  unfolding potential_def
proof (rule sum_strict_mono_ex1)
  show "finite {..<num_vertices gr}" by simp
next
  show "\<forall>x \<in> {..<num_vertices gr}.
      card {c' \<in> path_weights gr. cost_less (Fin c') ((d[v := Fin c]) ! x)}
      \<le> card {c' \<in> path_weights gr. cost_less (Fin c') (d ! x)}"
  proof
    fix x assume "x \<in> {..<num_vertices gr}"
    have "{c' \<in> path_weights gr. cost_less (Fin c') ((d[v := Fin c]) ! x)}
      \<subseteq> {c' \<in> path_weights gr. cost_less (Fin c') (d ! x)}"
    proof (cases "x = v")
      case True
      with v n lt show ?thesis by (auto intro: cost_less_lower)
    next
      case False
      then show ?thesis by simp
    qed
    then show "card {c' \<in> path_weights gr. cost_less (Fin c') ((d[v := Fin c]) ! x)}
      \<le> card {c' \<in> path_weights gr. cost_less (Fin c') (d ! x)}"
      by (intro card_mono) (simp_all add: finite_path_weights)
  qed
next
  have "{c' \<in> path_weights gr. cost_less (Fin c') ((d[v := Fin c]) ! v)}
      \<subset> {c' \<in> path_weights gr. cost_less (Fin c') (d ! v)}"
    using v n lt c by (auto intro: cost_less_lower)
  then have "card {c' \<in> path_weights gr. cost_less (Fin c') ((d[v := Fin c]) ! v)}
      < card {c' \<in> path_weights gr. cost_less (Fin c') (d ! v)}"
    by (intro psubset_card_mono) (simp_all add: finite_path_weights)
  with v show "\<exists>a \<in> {..<num_vertices gr}.
      card {c' \<in> path_weights gr. cost_less (Fin c') ((d[v := Fin c]) ! a)}
      < card {c' \<in> path_weights gr. cost_less (Fin c') (d ! a)}"
    by blast
qed

text \<open>
  Through the steps of the tree search: every vertex that is queued is paid for by a
  drop of the potential.
\<close>

lemma witnessed_cases:
  assumes "witnessed gr d" "v < num_vertices gr"
  obtains "d ! v = DblMax" | a where "d ! v = Fin a"
  using assms unfolding witnessed_def dist_witness_def by blast

lemma relax_target_potential:
  assumes wit: "witnessed gr (dmap st)" and u: "u < num_vertices gr" and v: "v < num_vertices gr"
    and e: "edge_weight gr (ekey u v) = Some w" and nn: "\<not> cost_less w (Fin 0)"
    and r: "relax_target u v w st = (st', dec)"
  shows "witnessed gr (dmap st') \<and>
    potential gr (dmap st') + (if dec then 1 else 0) \<le> potential gr (dmap st)"
proof (cases "cost_less (closed_plus (dmap st ! u) w) (dmap st ! v)")
  case False
  with r wit show ?thesis by (auto simp: relax_target_def)
next
  case True
  from wit have n: "length (dmap st) = num_vertices gr" by (simp add: witnessed_def)
  from True r have st': "dmap st' = (dmap st)[v := closed_plus (dmap st ! u) w]" and dec: dec
    by (auto simp: relax_target_def)
  from wit v have nv: "dmap st ! v \<noteq> PosInf"
    by (rule witnessed_cases) simp_all
  from wit u obtain a where du: "dmap st ! u = Fin a"
  proof (rule witnessed_cases)
    assume "dmap st ! u = DblMax"
    with True nv show ?thesis by (cases "dmap st ! v") simp_all
  qed
  obtain b where w: "w = Fin b" "0 \<le> b"
    using True nv nn du by (cases w; cases "dmap st ! v") simp_all
  from True du w have lt: "cost_less (Fin (a + b)) (dmap st ! v)" by simp
  from witnessed_relax[OF wit u v e[unfolded w(1)] w(2) du lt]
  have w': "witnessed gr ((dmap st)[v := Fin (a + b)])" and c: "a + b \<in> path_weights gr"
    by simp_all
  from potential_relax[OF n v c lt] w' st' du w dec show ?thesis by simp
qed

lemma relax_potential:
  assumes wit: "witnessed gr (dmap st)" and u: "u < num_vertices gr" and v: "v < num_vertices gr"
    and e: "edge_weight gr (ekey u v) = Some w" and nn: "\<not> cost_less w (Fin 0)"
    and r: "relax u v w st = (st', dec)"
  shows "witnessed gr (dmap st') \<and>
    potential gr (dmap st') + (if dec then 1 else 0) \<le> potential gr (dmap st)"
proof (cases "cost_less (closed_plus (dmap st ! u) w) (dmap st ! v)")
  case True
  with r have "relax_target u v w st = (st', dec)" by (simp add: relax_def)
  from relax_target_potential[OF wit u v e nn this] show ?thesis .
next
  case False
  show ?thesis
  proof (cases "cost_less (closed_plus (dmap st ! v) w) (dmap st ! u)")
    case True
    with False r have r': "relax_target v u w st = (st', dec)" by (simp add: relax_def)
    from e have e': "edge_weight gr (ekey v u) = Some w" by (simp add: ekey_commute)
    from relax_target_potential[OF wit v u e' nn r'] show ?thesis .
  next
    case F2: False
    with False r wit show ?thesis by (auto simp: relax_def)
  qed
qed

lemma astar_edge_potential:
  assumes wit: "witnessed gr (dmap st)" and v: "v < num_vertices gr" and w: "w < num_vertices gr"
    and e: "edge_weight gr (ekey v w) = Some e_weight" and nn: "\<not> cost_less e_weight (Fin 0)"
    and q: "snd ` set q \<subseteq> {..<num_vertices gr}"
    and a: "astar_edge env h v w e_weight (st, q) = (st', q')"
  shows "witnessed gr (dmap st') \<and> snd ` set q' \<subseteq> {..<num_vertices gr} \<and>
    length q' + potential gr (dmap st') \<le> length q + potential gr (dmap st)"
proof -
  obtain st1 b where r: "relax v w e_weight st = (st1, b)"
    by (cases "relax v w e_weight st") auto
  note p = relax_potential[OF wit v w e nn r]
  show ?thesis
  proof (cases b)
    case False
    with a r have "st' = st1" "q' = q" by (auto simp: astar_edge_def)
    with p q False show ?thesis by simp
  next
    case True
    obtain hw vs where hv: "heuristic_value env h w (verts st1) = (hw, vs)"
      by (cases "heuristic_value env h w (verts st1)") auto
    with a r True have "dmap st' = dmap st1" "q' = q @ [(closed_plus (dmap st1 ! w) hw, w)]"
      by (auto simp: astar_edge_def)
    with p q w True show ?thesis by simp
  qed
qed

lemma astar_edges_potential:
  assumes v: "v < num_vertices gr"
  shows "witnessed gr (dmap st) \<Longrightarrow> set ws \<subseteq> {..<num_vertices gr} \<Longrightarrow>
    snd ` set q \<subseteq> {..<num_vertices gr} \<Longrightarrow>
    astar_edges env h gr v ws (st, q) = Some (st', q') \<Longrightarrow>
    witnessed gr (dmap st') \<and> snd ` set q' \<subseteq> {..<num_vertices gr} \<and>
    length q' + potential gr (dmap st') \<le> length q + potential gr (dmap st)"
proof (induction ws arbitrary: st q)
  case Nil
  then show ?case by simp
next
  case (Cons w ws)
  show ?case
  proof (cases "edge_weight gr (ekey v w)")
    case None
    with Cons.prems have "astar_edges env h gr v ws (st, q) = Some (st', q')" by simp
    from Cons.IH[OF Cons.prems(1) _ Cons.prems(3) this] Cons.prems(2) show ?thesis by simp
  next
    case (Some e_weight)
    with Cons.prems(4) have nn: "\<not> cost_less e_weight (Fin 0)"
      by (auto split: if_splits)
    obtain st1 q1 where a: "astar_edge env h v w e_weight (st, q) = (st1, q1)"
      by (cases "astar_edge env h v w e_weight (st, q)") auto
    have w: "w < num_vertices gr" using Cons.prems(2) by simp
    from astar_edge_potential[OF Cons.prems(1) v w Some nn Cons.prems(3) a]
    have s1: "witnessed gr (dmap st1)" "snd ` set q1 \<subseteq> {..<num_vertices gr}"
      "length q1 + potential gr (dmap st1) \<le> length q + potential gr (dmap st)" by simp_all
    from Cons.prems(4) Some nn a
    have "astar_edges env h gr v ws (st1, q1) = Some (st', q')" by simp
    from Cons.IH[OF s1(1) _ s1(2) this] Cons.prems(2) s1(3) show ?thesis by simp
  qed
qed

text \<open>
  The loop of the tree search returns or throws: the length of the queue plus the
  potential falls in every round.
\<close>

lemma astar_loop_returns:
  "witnessed gr (dmap st) \<Longrightarrow> snd ` set q \<subseteq> {..<num_vertices gr} \<Longrightarrow>
   \<exists>ex. astar_loop env h gr goal_vertex (st, q) = Some ex"
proof (induction "length q + potential gr (dmap st)" arbitrary: st q rule: less_induct)
  case less
  show ?case
  proof (cases q)
    case Nil
    then show ?thesis by (subst astar_loop.simps) simp
  next
    case (Cons q0 qs)
    obtain v_rank v where mr: "min_rank q0 qs = (v_rank, v)"
      by (cases "min_rank q0 qs") auto
    define st1 where "st1 = st\<lparr>examined := v # examined st\<rparr>"
    have mem: "(v_rank, v) \<in> set q" using min_rank_mem[of q0 qs] mr Cons by simp
    then have v: "v < num_vertices gr" using less.prems(2) by force
    have ex: "examine_vertex goal_vertex v st = (st1, v = goal_vertex)"
      by (simp add: examine_vertex_def st1_def)
    have w1: "witnessed gr (dmap st1)" using less.prems(1) by (simp add: st1_def)
    have q1: "snd ` set (remove1 (v_rank, v) q) \<subseteq> {..<num_vertices gr}"
      using less.prems(2) set_remove1_subset[of "(v_rank, v)" q] by blast
    have oe: "set (out_edges v gr) \<subseteq> {..<num_vertices gr}"
      using out_edges_range by auto
    have len: "length (remove1 (v_rank, v) q) < length q"
      using mem by (simp add: length_remove1) (cases q; simp)
    have unf: "astar_loop env h gr goal_vertex (st, q) =
      (if v = goal_vertex then Some (FoundVertex st1)
       else case astar_edges env h gr v (out_edges v gr) (st1, remove1 (v_rank, v) q) of
              None \<Rightarrow> Some NegativeEdge
            | Some sq2 \<Rightarrow> astar_loop env h gr goal_vertex sq2)"
      by (subst astar_loop.simps) (simp add: Cons mr ex)
    show ?thesis
    proof (cases "v = goal_vertex")
      case True
      with unf show ?thesis by simp
    next
      case False
      show ?thesis
      proof (cases "astar_edges env h gr v (out_edges v gr) (st1, remove1 (v_rank, v) q)")
        case None
        with unf False show ?thesis by simp
      next
        case (Some sq2)
        obtain st2 q2 where sq2: "sq2 = (st2, q2)" by (cases sq2) auto
        note e = Some[unfolded sq2]
        from astar_edges_potential[OF v w1 oe q1 e]
        have w2: "witnessed gr (dmap st2)" and r2: "snd ` set q2 \<subseteq> {..<num_vertices gr}"
          and m: "length q2 + potential gr (dmap st2)
            \<le> length (remove1 (v_rank, v) q) + potential gr (dmap st1)"
          by simp_all
        from m len have "length q2 + potential gr (dmap st2) < length q + potential gr (dmap st)"
          by (simp add: st1_def)
        from less.hyps[OF this w2 r2] obtain ex2
          where "astar_loop env h gr goal_vertex (st2, q2) = Some ex2" ..
        with unf False Some sq2 show ?thesis by simp
      qed
    qed
  qed
qed

lemma witnessed_init:
  assumes s: "s < num_vertices gr"
  shows "witnessed gr ((replicate (num_vertices gr) DblMax)[s := Fin 0])"
proof -
  have "dist_witness gr ((replicate (num_vertices gr) DblMax)[s := Fin 0]) s [s]"
    using s by (simp add: dist_witness_def simple_paths_def)
  moreover have "((replicate (num_vertices gr) DblMax)[s := Fin 0]) ! v = DblMax"
    if "v < num_vertices gr" "v \<noteq> s" for v
    using that by simp
  ultimately have "((replicate (num_vertices gr) DblMax)[s := Fin 0]) ! v = DblMax \<or>
      (\<exists>xs. dist_witness gr ((replicate (num_vertices gr) DblMax)[s := Fin 0]) v xs)"
    if "v < num_vertices gr" for v
    using that by (cases "v = s") blast+
  then show ?thesis unfolding witnessed_def by simp
qed

lemma astar_search_tree_returns:
  assumes s: "s < num_vertices gr"
  shows "\<exists>ex. astar_search_tree env h gr s goal_vertex = Some ex"
proof -
  obtain hs vs where hv: "heuristic_value env h s (vertices gr) = (hs, vs)"
    by (cases "heuristic_value env h s (vertices gr)") auto
  show ?thesis
    unfolding astar_search_tree_def astar_init_def hv
    using astar_loop_returns[of gr _ "[(hs, s)]" env h goal_vertex] witnessed_init[OF s] s
    by simp
qed

section \<open>The walk along the predecessors ends\<close>

lemma out_edges_iff:
  "w \<in> set (out_edges v gr) \<longleftrightarrow> w < num_vertices gr \<and> edge_weight gr (ekey v w) \<noteq> None"
  by (auto simp: out_edges_def)

lemma fold_mark:
  "fold (\<lambda>w m. m(ekey v w := Some PosInf)) ws m e =
     (if e \<in> ekey v ` set ws then Some PosInf else m e)"
  by (induction ws arbitrary: m) auto

lemma mark_out_edges_weight:
  "edge_weight (mark_out_edges v gr) e =
     (if e \<in> ekey v ` set (out_edges v gr) then Some PosInf else edge_weight gr e)"
  by (simp add: mark_out_edges_def fold_mark)

lemma mark_out_edges_vertices: "vertices (mark_out_edges v gr) = vertices gr"
  by (simp add: mark_out_edges_def)

lemma mark_out_edges_defined:
  "edge_weight (mark_out_edges v gr) e \<noteq> None \<longleftrightarrow> edge_weight gr e \<noteq> None"
  by (auto simp: mark_out_edges_weight out_edges_iff)

lemma mark_out_edges_out_edges: "out_edges x (mark_out_edges v gr) = out_edges x gr"
  unfolding out_edges_def num_vertices_def mark_out_edges_vertices
  using mark_out_edges_defined[of v gr] by (intro filter_cong) simp_all

lemma linked_single: "linked p [v]"
  by (simp add: linked_def)

lemma linked_snoc:
  assumes "linked p xs" "xs \<noteq> []" "p ! v = last xs"
  shows "linked p (xs @ [v])"
  unfolding linked_def
proof (intro allI impI)
  fix i assume i: "Suc i < length (xs @ [v])"
  show "p ! ((xs @ [v]) ! Suc i) = (xs @ [v]) ! i"
  proof (cases "Suc i < length xs")
    case True
    with assms(1) show ?thesis by (simp add: linked_def nth_append)
  next
    case False
    with i have "Suc i = length xs" by simp
    then have "i = length xs - 1" "\<not> Suc i < length xs" "i < length xs" by simp_all
    then show ?thesis using assms(2,3) by (simp add: nth_append last_conv_nth)
  qed
qed

lemma pred_rel_wf: "pd_inv p d \<Longrightarrow> wf (pred_rel p)"
proof -
  assume inv: "pd_inv p d"
  have "pred_rel p \<subseteq> {..<length p} \<times> {..<length p}"
    using inv by (auto simp: pred_rel_def pd_inv_def)
  then have "finite (pred_rel p)" by (rule finite_subset) simp
  moreover have "acyclic (pred_rel p)" using inv by (simp add: pd_inv_def)
  ultimately show ?thesis by (rule finite_acyclic_wf)
qed

lemma reconstruct_returns:
  assumes inv: "pd_inv p d"
  shows "v < length p \<Longrightarrow>
    \<exists>gr' chain. reconstruct p full v (gr, acc) = Some (gr', chain @ acc) \<and>
      chain \<noteq> [] \<and> last chain = v \<and> p ! hd chain = hd chain \<and> linked p chain \<and>
      set chain \<subseteq> {..<length p} \<and> (p ! v = v \<longrightarrow> chain = [v]) \<and>
      vertices gr' = vertices gr \<and> edge_weight gr' = marked_weights full chain gr"
proof (induction v arbitrary: gr acc rule: wf_induct_rule[OF pred_rel_wf[OF inv]])
  case (1 v)
  define gr1 where "gr1 = (if full \<and> blacklisted (vertices gr ! v) then mark_out_edges v gr else gr)"
  have v1: "vertices gr1 = vertices gr" by (simp add: gr1_def mark_out_edges_vertices)
  have o1: "out_edges x gr1 = out_edges x gr" for x
    by (simp add: gr1_def mark_out_edges_out_edges)
  have w1: "edge_weight gr1 = marked_weights full [v] gr"
    by (rule ext) (simp add: gr1_def marked_weights_def mark_out_edges_weight)
  show ?case
  proof (cases "p ! v = v")
    case True
    have "reconstruct p full v (gr, acc) = Some (gr1, [v] @ acc)"
      using "1.prems" True by (subst reconstruct.simps) (simp add: gr1_def)
    with True v1 w1 "1.prems" show ?thesis
      by (intro exI[of _ gr1] exI[of _ "[v]"]) (simp add: linked_single)
  next
    case False
    have step: "reconstruct p full v (gr, acc) = reconstruct p full (p ! v) (gr1, v # acc)"
      using "1.prems" False by (subst reconstruct.simps) (simp add: gr1_def)
    have rel: "(p ! v, v) \<in> pred_rel p" using "1.prems" False by (auto simp: pred_rel_def)
    have pv: "p ! v < length p" using inv "1.prems" by (simp add: pd_inv_def)
    from "1.IH"[OF rel pv, of gr1 "v # acc"]
    obtain gr' chain where
      r: "reconstruct p full (p ! v) (gr1, v # acc) = Some (gr', chain @ v # acc)"
      and c: "chain \<noteq> []" "last chain = p ! v" "p ! hd chain = hd chain" "linked p chain"
        "set chain \<subseteq> {..<length p}"
      and g: "vertices gr' = vertices gr1" "edge_weight gr' = marked_weights full chain gr1"
      by blast
    have w: "edge_weight gr' = marked_weights full (chain @ [v]) gr"
    proof (rule ext)
      fix e
      show "edge_weight gr' e = marked_weights full (chain @ [v]) gr e"
        using g(2) v1 o1 w1 by (auto simp: marked_weights_def)
    qed
    have "reconstruct p full v (gr, acc) = Some (gr', (chain @ [v]) @ acc)"
      using step r by simp
    moreover have "linked p (chain @ [v])" using c by (intro linked_snoc) simp_all
    moreover have "hd (chain @ [v]) = hd chain" using c(1) by simp
    ultimately show ?thesis using c g v1 w "1.prems" False
      by (intro exI[of _ gr'] exI[of _ "chain @ [v]"]) simp
  qed
qed

section \<open>What the tree search does to the vertex properties\<close>

lemma verts_frame_refl: "verts_frame env vs vs"
  by (simp add: verts_frame_def)

lemma verts_frame_trans:
  assumes "verts_frame env vs vs1" "verts_frame env vs1 vs2"
  shows "verts_frame env vs vs2"
  unfolding verts_frame_def
proof (intro conjI allI impI)
  show "length vs2 = length vs" using assms by (simp add: verts_frame_def)
next
  fix i assume i: "i < length vs"
  then have i1: "i < length vs1" using assms(1) by (simp add: verts_frame_def)
  note a = assms(1)[unfolded verts_frame_def, THEN conjunct2, rule_format, OF i]
  note b = assms(2)[unfolded verts_frame_def, THEN conjunct2, rule_format, OF i1]
  show "state (vs2 ! i) = state (vs ! i)" using a b by simp
  show "control (vs2 ! i) = control (vs ! i)" using a b by simp
  show "control_duration (vs2 ! i) = control_duration (vs ! i)" using a b by simp
  show "vertex_id (vs2 ! i) = vertex_id (vs ! i)" using a b by simp
  show "g_value (vs2 ! i) = g_value (vs ! i)" using a b by simp
  show "blacklisted (vs2 ! i)" if "blacklisted (vs ! i)" using a b that by simp
  show "blacklisted (vs ! i) \<or> \<not> isValid env (state (vs ! i))" if "blacklisted (vs2 ! i)"
    using a b that by auto
qed

lemma heuristic_value_frame:
  assumes "heuristic_value env h i vs = (c, vs')" "i < length vs"
  shows "verts_frame env vs vs' \<and>
    (h = PrecomputedCostHeuristic \<and> \<not> isValid env (state (vs ! i)) \<longrightarrow> blacklisted (vs' ! i))"
proof (cases h)
  case (GenericDistanceHeuristic goal_state)
  with assms show ?thesis by (auto simp: verts_frame_refl)
next
  case PrecomputedCostHeuristic
  show ?thesis
  proof (cases "isValid env (state (vs ! i))")
    case True
    with assms PrecomputedCostHeuristic show ?thesis by (auto simp: verts_frame_refl)
  next
    case False
    with assms PrecomputedCostHeuristic have vs': "vs' = vs[i := (vs ! i)\<lparr>blacklisted := True\<rparr>]"
      by simp
    have "verts_frame env vs vs'"
      unfolding verts_frame_def vs' using False assms(2)
      by (auto simp: nth_list_update)
    then show ?thesis using vs' assms(2) by simp
  qed
qed

lemma relax_target_fin:
  assumes inv: "pd_inv (pmap st) (dmap st)" and v: "v < length (pmap st)"
    and w: "\<not> cost_less w (Fin 0)" and r: "relax_target u v w st = (st', b)"
  shows "(\<forall>x < length (pmap st). dmap st ! x \<noteq> DblMax \<longrightarrow> dmap st' ! x \<noteq> DblMax) \<and>
    (b \<longrightarrow> dmap st ! u \<noteq> DblMax \<and> dmap st' ! v \<noteq> DblMax)"
proof (cases "cost_less (closed_plus (dmap st ! u) w) (dmap st ! v)")
  case False
  with r show ?thesis by (simp add: relax_target_def)
next
  case True
  from inv have len: "length (dmap st) = length (pmap st)" and nin: "dmap st ! v \<noteq> PosInf"
    using v by (simp_all add: pd_inv_def)
  from True nin w obtain a c where du: "dmap st ! u = Fin a"
    and sum: "closed_plus (dmap st ! u) w = Fin (a + c)"
    by (rule relax_success)
  from r True sum have st': "dmap st' = (dmap st)[v := Fin (a + c)]" "b"
    by (auto simp: relax_target_def)
  have "dmap st' ! x \<noteq> DblMax" if "x < length (pmap st)" "dmap st ! x \<noteq> DblMax" for x
    using that len st' by (cases "x = v") simp_all
  moreover have "dmap st' ! v \<noteq> DblMax" using st' v len by simp
  ultimately show ?thesis using du by simp
qed

lemma relax_fin:
  assumes inv: "pd_inv (pmap st) (dmap st)" and u: "u < length (pmap st)" and v: "v < length (pmap st)"
    and w: "\<not> cost_less w (Fin 0)" and r: "relax u v w st = (st', b)"
  shows "(\<forall>x < length (pmap st). dmap st ! x \<noteq> DblMax \<longrightarrow> dmap st' ! x \<noteq> DblMax) \<and>
    (b \<longrightarrow> dmap st' ! v \<noteq> DblMax)"
proof (cases "cost_less (closed_plus (dmap st ! u) w) (dmap st ! v)")
  case True
  with r have "relax_target u v w st = (st', b)" by (simp add: relax_def)
  from relax_target_fin[OF inv v w this] show ?thesis by simp
next
  case False
  show ?thesis
  proof (cases "cost_less (closed_plus (dmap st ! v) w) (dmap st ! u)")
    case True
    with False r have rt: "relax_target v u w st = (st', b)" by (simp add: relax_def)
    from relax_target_fin[OF inv u w rt] v show ?thesis by auto
  next
    case F2: False
    with False r show ?thesis by (simp add: relax_def)
  qed
qed

lemma astar_edge_frame:
  assumes inv: "search_inv gr s st" and v: "v < num_vertices gr" and w: "w < num_vertices gr"
    and e: "\<not> cost_less e_weight (Fin 0)"
    and fr: "frame_inv env h vs0 st (map snd q)"
    and a: "astar_edge env h v w e_weight (st, q) = (st', q')"
  shows "frame_inv env h vs0 st' (map snd q')"
proof -
  obtain st1 b where r: "relax v w e_weight st = (st1, b)"
    by (cases "relax v w e_weight st") auto
  from inv v w have vw: "v < length (pmap st)" "w < length (pmap st)"
    and n: "length (pmap st) = num_vertices gr" "length (verts st) = num_vertices gr"
    and pd: "pd_inv (pmap st) (dmap st)"
    by (simp_all add: search_inv_def)
  note fin = relax_fin[OF pd vw e r]
  note len = relax_length[OF r]
  have ch1: "checked env h st1 x" if "checked env h st x" for x
    using that fin len n by (simp add: checked_def)
  have fr1: "frame_inv env h vs0 st1 (map snd q)"
    using fr ch1 len by (simp add: frame_inv_def)
  show ?thesis
  proof (cases b)
    case False
    with a r have "st' = st1" "q' = q" by (auto simp: astar_edge_def)
    with fr1 show ?thesis by simp
  next
    case True
    obtain hw vs where hv: "heuristic_value env h w (verts st1) = (hw, vs)"
      by (cases "heuristic_value env h w (verts st1)") auto
    with a r True have st': "st' = st1\<lparr>verts := vs\<rparr>"
      and q': "q' = q @ [(closed_plus (dmap st1 ! w) hw, w)]"
      by (auto simp: astar_edge_def)
    have wl: "w < length (verts st1)" using w n len by simp
    note hf = heuristic_value_frame[OF hv wl]
    then have vf: "verts_frame env (verts st1) vs" by simp
    have ch2: "checked env h st' x" if x: "checked env h st1 x" for x
    proof -
      from x have xl: "x < length (verts st1)" by (simp add: checked_def)
      note f = vf[unfolded verts_frame_def, THEN conjunct2, rule_format, OF xl]
      show ?thesis using x f vf by (auto simp: checked_def st' verts_frame_def)
    qed
    have chw: "checked env h st' w"
    proof -
      note f = vf[unfolded verts_frame_def, THEN conjunct2, rule_format, OF wl]
      have "dmap st1 ! w \<noteq> DblMax" using fin True by simp
      then show ?thesis using hf f wl vf by (auto simp: checked_def st' verts_frame_def)
    qed
    have "verts_frame env vs0 (verts st')"
      using fr1 vf verts_frame_trans by (auto simp: frame_inv_def st')
    moreover have "examined st' = examined st1" by (simp add: st')
    ultimately show ?thesis
      using fr1 ch2 chw by (auto simp: frame_inv_def q')
  qed
qed

lemma astar_edges_frame:
  assumes v: "v < num_vertices gr"
  shows "search_inv gr s st \<Longrightarrow> set ws \<subseteq> {..<num_vertices gr} \<Longrightarrow>
    snd ` set q \<subseteq> {..<num_vertices gr} \<Longrightarrow> frame_inv env h vs0 st (map snd q) \<Longrightarrow>
    astar_edges env h gr v ws (st, q) = Some (st', q') \<Longrightarrow>
    frame_inv env h vs0 st' (map snd q')"
proof (induction ws arbitrary: st q)
  case Nil
  then show ?case by simp
next
  case (Cons w ws)
  show ?case
  proof (cases "edge_weight gr (ekey v w)")
    case None
    with Cons show ?thesis by simp
  next
    case (Some e_weight)
    with Cons.prems(5) have e: "\<not> cost_less e_weight (Fin 0)" by (auto split: if_splits)
    obtain st1 q1 where a: "astar_edge env h v w e_weight (st, q) = (st1, q1)"
      by (cases "astar_edge env h v w e_weight (st, q)") auto
    have w: "w < num_vertices gr" using Cons.prems(2) by simp
    from astar_edge_inv[OF Cons.prems(1) v w e Cons.prems(3) a]
    have s1: "search_inv gr s st1" "snd ` set q1 \<subseteq> {..<num_vertices gr}" by simp_all
    from astar_edge_frame[OF Cons.prems(1) v w e Cons.prems(4) a]
    have f1: "frame_inv env h vs0 st1 (map snd q1)" .
    from Cons.prems(5) Some e a
    have "astar_edges env h gr v ws (st1, q1) = Some (st', q')" by simp
    from Cons.IH[OF s1(1) _ s1(2) f1 this] Cons.prems(2) show ?thesis by simp
  qed
qed

lemma astar_loop_frame:
  assumes run: "astar_loop env h gr goal_vertex sq = Some ex"
    and inv: "search_inv gr s (fst sq)" "snd ` set (snd sq) \<subseteq> {..<num_vertices gr}"
      "frame_inv env h vs0 (fst sq) (map snd (snd sq))"
  shows "\<forall>st. ex \<in> {FoundVertex st, Exhausted st} \<longrightarrow> frame_inv env h vs0 st []"
  using run inv
proof (induction rule: astar_loop_induct)
  case (step astar_loop env h gr goal_vertex sq ex)
  obtain st q where sq: "sq = (st, q)" by (cases sq) auto
  have inv: "search_inv gr s st" "snd ` set q \<subseteq> {..<num_vertices gr}"
    "frame_inv env h vs0 st (map snd q)"
    using step.prems sq by simp_all
  show ?case
  proof (cases q)
    case Nil
    with step.hyps sq inv show ?thesis by (auto simp: frame_inv_def)
  next
    case (Cons q0 qs)
    obtain v_rank v where mr: "min_rank q0 qs = (v_rank, v)"
      by (cases "min_rank q0 qs") auto
    define st1 where "st1 = st\<lparr>examined := v # examined st\<rparr>"
    have vq: "(v_rank, v) \<in> set q" using min_rank_mem[of q0 qs] mr Cons by simp
    then have v: "v < num_vertices gr" using inv(2) by force
    have ex: "examine_vertex goal_vertex v st = (st1, v = goal_vertex)"
      by (simp add: examine_vertex_def st1_def)
    have inv1: "search_inv gr s st1" using inv(1) by (simp add: search_inv_def st1_def)
    have ch: "checked env h st1 x" if "checked env h st x" for x
      using that by (simp add: checked_def st1_def)
    have "v \<in> set (map snd q)" using vq by force
    then have fr0: "frame_inv env h vs0 st1 (map snd q)"
      using inv(3) ch by (auto simp: frame_inv_def st1_def)
    show ?thesis
    proof (cases "v = goal_vertex")
      case True
      with step.hyps sq Cons mr ex have "ex = FoundVertex st1" by simp
      with fr0 show ?thesis by (auto simp: frame_inv_def)
    next
      case False
      have "set (remove1 (v_rank, v) q) \<subseteq> set q" by (rule set_remove1_subset)
      then have sub: "set (map snd (remove1 (v_rank, v) q)) \<subseteq> set (map snd q)" by auto
      have q1: "snd ` set (remove1 (v_rank, v) q) \<subseteq> {..<num_vertices gr}"
        using inv(2) set_remove1_subset[of "(v_rank, v)" q] by blast
      have fr1: "frame_inv env h vs0 st1 (map snd (remove1 (v_rank, v) q))"
        using fr0 sub by (auto simp: frame_inv_def)
      have oe: "set (out_edges v gr) \<subseteq> {..<num_vertices gr}"
        using out_edges_range by auto
      note edges = astar_edges_inv[OF v inv1 oe q1, of env h]
      show ?thesis
      proof (cases "astar_edges env h gr v (out_edges v gr) (st1, remove1 (v_rank, v) q)")
        case None
        with step.hyps sq Cons mr ex False have "ex = NegativeEdge" by simp
        then show ?thesis by simp
      next
        case (Some sq2)
        obtain st2 q2 where sq2: "sq2 = (st2, q2)" by (cases sq2) auto
        note e = Some[unfolded sq2]
        from edges e have inv2: "search_inv gr s st2" and q2: "snd ` set q2 \<subseteq> {..<num_vertices gr}"
          by simp_all
        from astar_edges_frame[OF v inv1 oe q1 fr1 e]
        have fr2: "frame_inv env h vs0 st2 (map snd q2)" .
        from step.hyps sq Cons mr ex False e
        have "astar_loop env h gr goal_vertex (st2, q2) = Some ex" by simp
        from step.IH[OF this] inv2 q2 fr2 show ?thesis by simp
      qed
    qed
  qed
qed

lemma astar_search_tree_exit:
  assumes s: "s < num_vertices gr"
    and run: "astar_search_tree env h gr s goal_vertex = Some ex"
  shows "exit_inv gr s goal_vertex ex \<and>
    (\<forall>st. ex \<in> {FoundVertex st, Exhausted st} \<longrightarrow> frame_inv env h (vertices gr) st [])"
proof -
  obtain hs vs where hv: "heuristic_value env h s (vertices gr) = (hs, vs)"
    by (cases "heuristic_value env h s (vertices gr)") auto
  define st0 :: "('a, 'b) search_state" where
    "st0 = \<lparr>pmap = [0..<num_vertices gr],
           dmap = (replicate (num_vertices gr) DblMax)[s := Fin 0], examined = [], verts = vs\<rparr>"
  have init: "astar_init env h gr s = (st0, [(hs, s)])"
    by (simp add: astar_init_def hv st0_def)
  have sl: "s < length (vertices gr)" using s by (simp add: num_vertices_def)
  note hf = heuristic_value_frame[OF hv sl]
  have lvs: "length vs = num_vertices gr"
    using heuristic_value_length[OF hv] by (simp add: num_vertices_def)
  have inv0: "search_inv gr s st0"
    using pd_inv_init[OF s] root_inv_init[OF s] lvs by (simp add: search_inv_def st0_def)
  have f: "state (vs ! s) = state (vertices gr ! s)"
    using hf sl by (simp add: verts_frame_def)
  have "checked env h st0 s"
    using hf s lvs f by (auto simp: checked_def st0_def)
  then have fr0: "frame_inv env h (vertices gr) st0 (map snd [(hs, s)])"
    using hf by (simp add: frame_inv_def st0_def)
  from run init have loop: "astar_loop env h gr goal_vertex (st0, [(hs, s)]) = Some ex"
    by (simp add: astar_search_tree_def)
  have "exit_inv gr s goal_vertex ex"
    using astar_loop_exit[OF loop] inv0 s by (simp add: st0_def)
  moreover have "\<forall>st. ex \<in> {FoundVertex st, Exhausted st} \<longrightarrow> frame_inv env h (vertices gr) st []"
    using astar_loop_frame[OF loop, of s "vertices gr"] inv0 s fr0 by simp
  ultimately show ?thesis by simp
qed

lemma run_search_exit:
  assumes s: "s < num_vertices gr"
    and run: "run_search env gr h s goal_vertex pre = Some ex"
  shows "exit_inv gr s goal_vertex ex \<and>
    (\<forall>st. ex \<in> {FoundVertex st, Exhausted st} \<longrightarrow>
       verts_frame env (vertices gr) (verts st) \<and>
       (pre \<longrightarrow> verts st = vertices gr) \<and>
       (\<not> pre \<longrightarrow> (\<forall>v \<in> set (examined st). checked env h st v)))"
proof (cases pre)
  case True
  with run have ex: "ex = dijkstra_shortest_paths gr s goal_vertex" by (simp add: run_search_def)
  from dijkstra_shortest_paths_exit[OF s, of goal_vertex] ex True
  show ?thesis by (auto simp: verts_frame_refl)
next
  case False
  with run have "astar_search_tree env h gr s goal_vertex = Some ex" by (simp add: run_search_def)
  from astar_search_tree_exit[OF s this] False
  show ?thesis by (auto simp: frame_inv_def)
qed

lemma run_search_returns:
  assumes s: "s < num_vertices gr"
  shows "\<exists>ex. run_search env gr h s goal_vertex pre = Some ex"
  using astar_search_tree_returns[OF s, of env h goal_vertex] by (simp add: run_search_def)

section \<open>What computeShortestPath returns\<close>

lemma linked_Cons: "linked p (x # y # ys) \<longleftrightarrow> p ! y = x \<and> linked p (y # ys)"
proof
  assume l: "linked p (x # y # ys)"
  have "p ! y = x" using l[unfolded linked_def, rule_format, of 0] by simp
  moreover have "linked p (y # ys)"
    unfolding linked_def
  proof (intro allI impI)
    fix i assume "Suc i < length (y # ys)"
    then show "p ! ((y # ys) ! Suc i) = (y # ys) ! i"
      using l[unfolded linked_def, rule_format, of "Suc i"] by simp
  qed
  ultimately show "p ! y = x \<and> linked p (y # ys)" by simp
next
  assume a: "p ! y = x \<and> linked p (y # ys)"
  show "linked p (x # y # ys)"
    unfolding linked_def
  proof (intro allI impI)
    fix i assume i: "Suc i < length (x # y # ys)"
    show "p ! ((x # y # ys) ! Suc i) = (x # y # ys) ! i"
    proof (cases i)
      case 0
      with a show ?thesis by simp
    next
      case (Suc j)
      with i a[THEN conjunct2, unfolded linked_def, rule_format, of j] show ?thesis by simp
    qed
  qed
qed

text \<open>Walking up from a vertex whose distance has been set, every distance has been set.\<close>

lemma chain_fin:
  assumes inv: "pd_inv p d"
  shows "linked p (x # xs) \<Longrightarrow> set (x # xs) \<subseteq> {..<length p} \<Longrightarrow>
    d ! last (x # xs) \<noteq> DblMax \<Longrightarrow> d ! x \<noteq> DblMax"
proof (induction xs arbitrary: x)
  case Nil
  then show ?case by simp
next
  case (Cons y ys)
  from Cons.prems(1) have py: "p ! y = x" and l: "linked p (y # ys)"
    by (simp_all add: linked_Cons)
  from Cons.IH[OF l] Cons.prems(2,3) have dy: "d ! y \<noteq> DblMax" by simp
  have y: "y < length p" using Cons.prems(2) by simp
  show ?case
  proof (cases "x = y")
    case True
    with dy show ?thesis by simp
  next
    case False
    with py have "p ! y \<noteq> y" by simp
    with inv y have "\<not> cost_less (d ! y) (d ! (p ! y))" "d ! y \<noteq> PosInf"
      by (simp_all add: pd_inv_def)
    with dy py show ?thesis by (cases "d ! y"; cases "d ! x") simp_all
  qed
qed

lemma chain_root:
  assumes inv: "pd_inv p d" and root: "root_inv s p d"
    and c: "chain \<noteq> []" "linked p chain" "set chain \<subseteq> {..<length p}"
      "p ! hd chain = hd chain" "d ! last chain \<noteq> DblMax"
  shows "hd chain = s"
proof -
  obtain x xs where ch: "chain = x # xs" using c(1) by (cases chain) auto
  from chain_fin[OF inv, of x xs] c ch have dx: "d ! x \<noteq> DblMax" by simp
  have "x < length p" "p ! x = x" using c ch by simp_all
  with root dx have "x = s" by (auto simp: root_inv_def)
  with ch show ?thesis by simp
qed



lemma computeShortestPath_found:
  assumes s: "start_vertex < num_vertices gr"
    and g: "goal_vertex < num_vertices gr"
    and run: "run_search env gr h start_vertex goal_vertex pre = Some (FoundVertex st)"
  shows "\<exists>path gr'.
     computeShortestPath env gr h start_vertex goal_vertex pre full = Some (Returned path gr') \<and>
     path \<noteq> [] \<and> last path = goal_vertex \<and> pmap st ! hd path = hd path \<and>
     linked (pmap st) path \<and> set path \<subseteq> {..<num_vertices gr} \<and>
     vertices gr' = store_distances (dmap st) (verts st) \<and>
     edge_weight gr' =
       marked_weights full path (gr\<lparr>vertices := store_distances (dmap st) (verts st)\<rparr>) \<and>
     (dmap st ! goal_vertex \<noteq> DblMax \<longrightarrow> hd path = start_vertex) \<and>
     (dmap st ! goal_vertex = DblMax \<longrightarrow> path = [goal_vertex])"
proof -
  from run_search_exit[OF s run] have inv: "search_inv gr start_vertex st"
    by (simp add: exit_inv_def)
  then have pd: "pd_inv (pmap st) (dmap st)" and rt: "root_inv start_vertex (pmap st) (dmap st)"
    and len: "length (pmap st) = num_vertices gr"
    by (simp_all add: search_inv_def)
  let ?gr1 = "gr\<lparr>vertices := store_distances (dmap st) (verts st)\<rparr>"
  have gl: "goal_vertex < length (pmap st)" using g len by simp
  from reconstruct_returns[OF pd gl, of full ?gr1 "[]"]
  obtain gr' chain where
    r: "reconstruct (pmap st) full goal_vertex (?gr1, []) = Some (gr', chain)"
    and c: "chain \<noteq> []" "last chain = goal_vertex" "pmap st ! hd chain = hd chain"
      "linked (pmap st) chain" "set chain \<subseteq> {..<length (pmap st)}"
    and single: "pmap st ! goal_vertex = goal_vertex \<longrightarrow> chain = [goal_vertex]"
    and gw: "vertices gr' = vertices ?gr1" "edge_weight gr' = marked_weights full chain ?gr1"
    by auto
  have ret: "computeShortestPath env gr h start_vertex goal_vertex pre full = Some (Returned chain gr')"
    using s g run r by (simp add: computeShortestPath_def)
  have "hd chain = start_vertex" if "dmap st ! goal_vertex \<noteq> DblMax"
    using chain_root[OF pd rt c(1,4,5,3)] c(2) that by simp
  moreover have "chain = [goal_vertex]" if "dmap st ! goal_vertex = DblMax"
  proof -
    have "pmap st ! goal_vertex = goal_vertex"
      using pd gl that by (auto simp: pd_inv_def)
    with single show ?thesis by simp
  qed
  ultimately show ?thesis using ret c gw len by auto
qed

lemma computeShortestPath_exhausted:
  assumes s: "start_vertex < num_vertices gr" and g: "goal_vertex < num_vertices gr"
    and run: "run_search env gr h start_vertex goal_vertex pre = Some (Exhausted st)"
  shows "computeShortestPath env gr h start_vertex goal_vertex pre full =
    Some (Returned [] (gr\<lparr>vertices := verts st\<rparr>))"
  using s g run by (simp add: computeShortestPath_def)

section \<open>Graph search: the claims\<close>


lemma blocked_pair_nonneg: "nonneg_weights blocked_pair"
  by (auto simp: nonneg_weights_def blocked_pair_def split: if_splits)

lemma apart_pair_nonneg: "nonneg_weights apart_pair"
  by (simp add: nonneg_weights_def apart_pair_def)

lemma example_sizes:
  "num_vertices triangle = 3" "num_vertices blocked_pair = 2" "num_vertices apart_pair = 2"
  by (simp_all add: num_vertices_def triangle_def blocked_pair_def apart_pair_def)

text \<open>
  Claim C1. For every graph and every start and goal vertex of it, \<open>computeShortestPath\<close>
  returns the walk along the predecessors, a non-empty list that ends at the goal, when
  and only when the search threw \<^verbatim>\<open>FoundVertex\<close>, which is when the goal vertex was
  examined; it returns the empty list when the search returned with its queue empty and
  the goal not examined. The one exception that can leave the function is
  \<^verbatim>\<open>negative_edge\<close>, thrown at an edge of negative weight, not at an empty queue.
  Both searches end, so one of the three happens in every call.
\<close>

theorem computeShortestPath_path_or_empty:
  assumes s: "start_vertex < num_vertices gr" and g: "goal_vertex < num_vertices gr"
  shows "\<exists>ex. run_search env gr h start_vertex goal_vertex pre = Some ex \<and>
    (case ex of
       FoundVertex st \<Rightarrow>
         goal_vertex \<in> set (examined st) \<and>
         (\<exists>path gr'.
            computeShortestPath env gr h start_vertex goal_vertex pre full = Some (Returned path gr') \<and>
            path \<noteq> [] \<and> last path = goal_vertex \<and> linked (pmap st) path \<and>
            pmap st ! hd path = hd path)
     | Exhausted st \<Rightarrow>
         goal_vertex \<notin> set (examined st) \<and>
         computeShortestPath env gr h start_vertex goal_vertex pre full =
           Some (Returned [] (gr\<lparr>vertices := verts st\<rparr>))
     | NegativeEdge \<Rightarrow>
         \<not> nonneg_weights gr \<and>
         computeShortestPath env gr h start_vertex goal_vertex pre full = Some Thrown_negative_edge)"
proof -
  from run_search_returns[OF s, of env h goal_vertex pre]
  obtain ex where Some: "run_search env gr h start_vertex goal_vertex pre = Some ex" ..
  note ei = run_search_exit[OF s Some, THEN conjunct1]
  show ?thesis
  proof (cases ex)
    case (FoundVertex st)
    with Some have run: "run_search env gr h start_vertex goal_vertex pre = Some (FoundVertex st)"
      by simp
    from computeShortestPath_found[OF s g run, of full] ei FoundVertex run
    show ?thesis by (auto simp: exit_inv_def)
  next
    case (Exhausted st)
    with Some have run: "run_search env gr h start_vertex goal_vertex pre = Some (Exhausted st)"
      by simp
    from computeShortestPath_exhausted[OF s g run, of full] ei Exhausted run
    show ?thesis by (simp add: exit_inv_def)
  next
    case NegativeEdge
    with ei Some s g show ?thesis by (simp add: exit_inv_def computeShortestPath_def)
  qed
qed

theorem computeShortestPath_path_or_empty_witness:
  "(0::nat) < num_vertices triangle \<and> 2 < num_vertices triangle \<and>
   (\<exists>path gr'.
      computeShortestPath one_invalid triangle PrecomputedCostHeuristic 0 2 False True =
        Some (Returned path gr') \<and> path \<noteq> [] \<and> last path = 2) \<and>
   (0::nat) < num_vertices apart_pair \<and> 1 < num_vertices apart_pair \<and>
   computeShortestPath one_invalid apart_pair PrecomputedCostHeuristic 0 1 True True =
     Some (Returned [] (apart_pair\<lparr>vertices := map plain_vertex [0, 1]\<rparr>))"
proof -
  have r1: "run_search one_invalid triangle PrecomputedCostHeuristic 0 2 False =
    Some (FoundVertex \<lparr>pmap = [0, 0, 0], dmap = [Fin 0, Fin 1, Fin 1], examined = [2, 0],
       verts = [plain_vertex 0, (plain_vertex 1)\<lparr>blacklisted := True\<rparr>, plain_vertex 2]\<rparr>)"
    by code_simp
  have r2: "run_search one_invalid apart_pair PrecomputedCostHeuristic 0 1 True =
    Some (Exhausted \<lparr>pmap = [0, 1], dmap = [Fin 0, DblMax], examined = [0],
       verts = map plain_vertex [0, 1]\<rparr>)"
    by code_simp
  have h1: "(0::nat) < num_vertices triangle" "2 < num_vertices triangle"
    and h2: "(0::nat) < num_vertices apart_pair" "1 < num_vertices apart_pair"
    by (simp_all add: example_sizes)
  from computeShortestPath_path_or_empty[OF h1,
      where env = one_invalid and h = PrecomputedCostHeuristic and pre = False and full = True]
  have c1: "\<exists>path gr'.
      computeShortestPath one_invalid triangle PrecomputedCostHeuristic 0 2 False True =
        Some (Returned path gr') \<and> path \<noteq> [] \<and> last path = 2"
    unfolding r1 by auto
  from computeShortestPath_path_or_empty[OF h2,
      where env = one_invalid and h = PrecomputedCostHeuristic and pre = True and full = True]
  have c2: "computeShortestPath one_invalid apart_pair PrecomputedCostHeuristic 0 1 True True =
     Some (Returned [] (apart_pair\<lparr>vertices := map plain_vertex [0, 1]\<rparr>))"
    unfolding r2 by simp
  show ?thesis using h1 h2 c1 c2 by blast
qed












section \<open>The best-path record: the claim\<close>

lemma update_geometric_step:
  "\<not> cost_less (bestGeometricCost best) (bestGeometricCost (update_geometric best found)) \<and>
   bestControlCost (update_geometric best found) = bestControlCost best \<and>
   bestControlPath (update_geometric best found) = bestControlPath best \<and>
   (update_geometric best found \<noteq> best \<longrightarrow>
      cost_less (bestGeometricCost (update_geometric best found)) (bestGeometricCost best) \<and>
      (\<exists>path. found = Some (bestGeometricCost (update_geometric best found), path) \<and>
         bestGeometricPath (update_geometric best found) = Some path))"
  by (cases found) (auto simp: update_geometric_def cost_less_irrefl
      intro: cost_less_trans dest: cost_less_trans split: prod.splits)

lemma update_control_step:
  "\<not> cost_less (bestControlCost best) (bestControlCost (update_control best found)) \<and>
   bestGeometricCost (update_control best found) = bestGeometricCost best \<and>
   bestGeometricPath (update_control best found) = bestGeometricPath best \<and>
   (update_control best found \<noteq> best \<longrightarrow>
      cost_less (bestControlCost (update_control best found)) (bestControlCost best) \<and>
      (\<exists>path. found = Some (bestControlCost (update_control best found), path) \<and>
         bestControlPath (update_control best found) = Some path))"
  by (cases found) (auto simp: update_control_def cost_less_irrefl
      intro: cost_less_trans dest: cost_less_trans split: prod.splits)

lemma round_update_step:
  "\<not> cost_less (bestGeometricCost best) (bestGeometricCost (round_update best found)) \<and>
   \<not> cost_less (bestControlCost best) (bestControlCost (round_update best found)) \<and>
   (bestGeometricCost (round_update best found) \<noteq> bestGeometricCost best \<or>
    bestGeometricPath (round_update best found) \<noteq> bestGeometricPath best \<longrightarrow>
      cost_less (bestGeometricCost (round_update best found)) (bestGeometricCost best) \<and>
      (\<exists>path. fst found = Some (bestGeometricCost (round_update best found), path) \<and>
         bestGeometricPath (round_update best found) = Some path)) \<and>
   (bestControlCost (round_update best found) \<noteq> bestControlCost best \<or>
    bestControlPath (round_update best found) \<noteq> bestControlPath best \<longrightarrow>
      cost_less (bestControlCost (round_update best found)) (bestControlCost best) \<and>
      (\<exists>path. snd found = Some (bestControlCost (round_update best found), path) \<and>
         bestControlPath (round_update best found) = Some path))"
proof -
  let ?g = "update_geometric best (fst found)"
  note g = update_geometric_step[of best "fst found"]
  note c = update_control_step[of ?g "snd found"]
  have geo: "?g \<noteq> best"
    if "bestGeometricCost ?g \<noteq> bestGeometricCost best \<or>
        bestGeometricPath ?g \<noteq> bestGeometricPath best"
    using that by auto
  have ctl: "update_control ?g (snd found) \<noteq> ?g"
    if "bestControlCost (update_control ?g (snd found)) \<noteq> bestControlCost ?g \<or>
        bestControlPath (update_control ?g (snd found)) \<noteq> bestControlPath ?g"
    using that by auto
  show ?thesis
    unfolding round_update_def using g c geo ctl by metis
qed

lemma solve_rounds_length: "length (solve_rounds best rounds) = length rounds"
  by (induction rounds arbitrary: best) simp_all

lemma solve_rounds_nth:
  "i < length rounds \<Longrightarrow>
   (best # solve_rounds best rounds) ! Suc i =
     round_update ((best # solve_rounds best rounds) ! i) (rounds ! i)"
proof (induction rounds arbitrary: best i)
  case Nil
  then show ?case by simp
next
  case (Cons r rounds)
  show ?case
  proof (cases i)
    case 0
    then show ?thesis by simp
  next
    case (Suc k)
    with Cons.prems have "k < length rounds" by simp
    from Cons.IH[OF this, of "round_update best r"] Suc show ?thesis by simp
  qed
qed

lemma solve_rounds_monotone:
  "i \<le> j \<Longrightarrow> j \<le> length rounds \<Longrightarrow>
   \<not> cost_less (bestGeometricCost ((best # solve_rounds best rounds) ! i))
        (bestGeometricCost ((best # solve_rounds best rounds) ! j)) \<and>
   \<not> cost_less (bestControlCost ((best # solve_rounds best rounds) ! i))
        (bestControlCost ((best # solve_rounds best rounds) ! j))"
proof (induction j)
  case 0
  then show ?case by (simp add: cost_less_irrefl)
next
  case (Suc j)
  show ?case
  proof (cases "i = Suc j")
    case True
    then show ?thesis by (simp add: cost_less_irrefl)
  next
    case False
    with Suc.prems have ij: "i \<le> j" and j: "j < length rounds" by simp_all
    note IH = Suc.IH[OF ij less_imp_le[OF j]]
    note st = round_update_step[of "(best # solve_rounds best rounds) ! j" "rounds ! j"]
    note nx = solve_rounds_nth[OF j, of best]
    show ?thesis
      unfolding nx using IH st cost_le_trans by blast
  qed
qed

text \<open>
  Claim C4. Along the records of one call of \<open>solve\<close>, the one it starts with and the
  one after each round, neither the best geometric cost nor the best control cost ever
  rises, and a cost or a path of the record differs from one round to the next only when
  the round found a path of strictly smaller cost, which is then the recorded one.
\<close>

theorem best_cost_never_rises:
  "(\<forall>i j. i \<le> j \<and> j \<le> length rounds \<longrightarrow>
      \<not> cost_less (bestGeometricCost ((best # solve_rounds best rounds) ! i))
           (bestGeometricCost ((best # solve_rounds best rounds) ! j)) \<and>
      \<not> cost_less (bestControlCost ((best # solve_rounds best rounds) ! i))
           (bestControlCost ((best # solve_rounds best rounds) ! j))) \<and>
   (\<forall>i < length rounds.
      (bestGeometricCost ((best # solve_rounds best rounds) ! Suc i)
         \<noteq> bestGeometricCost ((best # solve_rounds best rounds) ! i) \<or>
       bestGeometricPath ((best # solve_rounds best rounds) ! Suc i)
         \<noteq> bestGeometricPath ((best # solve_rounds best rounds) ! i) \<longrightarrow>
         cost_less (bestGeometricCost ((best # solve_rounds best rounds) ! Suc i))
           (bestGeometricCost ((best # solve_rounds best rounds) ! i)) \<and>
         (\<exists>path. fst (rounds ! i)
              = Some (bestGeometricCost ((best # solve_rounds best rounds) ! Suc i), path) \<and>
            bestGeometricPath ((best # solve_rounds best rounds) ! Suc i) = Some path)) \<and>
      (bestControlCost ((best # solve_rounds best rounds) ! Suc i)
         \<noteq> bestControlCost ((best # solve_rounds best rounds) ! i) \<or>
       bestControlPath ((best # solve_rounds best rounds) ! Suc i)
         \<noteq> bestControlPath ((best # solve_rounds best rounds) ! i) \<longrightarrow>
         cost_less (bestControlCost ((best # solve_rounds best rounds) ! Suc i))
           (bestControlCost ((best # solve_rounds best rounds) ! i)) \<and>
         (\<exists>path. snd (rounds ! i)
              = Some (bestControlCost ((best # solve_rounds best rounds) ! Suc i), path) \<and>
            bestControlPath ((best # solve_rounds best rounds) ! Suc i) = Some path)))"
proof -
  let ?sts = "best # solve_rounds best rounds"
  have mono: "\<not> cost_less (bestGeometricCost (?sts ! i)) (bestGeometricCost (?sts ! j)) \<and>
      \<not> cost_less (bestControlCost (?sts ! i)) (bestControlCost (?sts ! j))"
    if "i \<le> j \<and> j \<le> length rounds" for i j
    using that solve_rounds_monotone by blast
  have step: "(bestGeometricCost (?sts ! Suc i) \<noteq> bestGeometricCost (?sts ! i) \<or>
       bestGeometricPath (?sts ! Suc i) \<noteq> bestGeometricPath (?sts ! i) \<longrightarrow>
         cost_less (bestGeometricCost (?sts ! Suc i)) (bestGeometricCost (?sts ! i)) \<and>
         (\<exists>path. fst (rounds ! i) = Some (bestGeometricCost (?sts ! Suc i), path) \<and>
            bestGeometricPath (?sts ! Suc i) = Some path)) \<and>
      (bestControlCost (?sts ! Suc i) \<noteq> bestControlCost (?sts ! i) \<or>
       bestControlPath (?sts ! Suc i) \<noteq> bestControlPath (?sts ! i) \<longrightarrow>
         cost_less (bestControlCost (?sts ! Suc i)) (bestControlCost (?sts ! i)) \<and>
         (\<exists>path. snd (rounds ! i) = Some (bestControlCost (?sts ! Suc i), path) \<and>
            bestControlPath (?sts ! Suc i) = Some path))"
    if i: "i < length rounds" for i
    unfolding solve_rounds_nth[OF i, of best]
    using round_update_step[of "?sts ! i" "rounds ! i"] by blast
  from mono step show ?thesis by blast
qed

theorem best_cost_never_rises_witness:
  "map bestGeometricCost
     (initial_best #
      solve_rounds (initial_best :: nat best_path_state)
        [(Some (Fin 5, 1), None), (Some (Fin 7, 2), Some (Fin 9, 3)), (Some (Fin 3, 4), None)])
     = [PosInf, Fin 5, Fin 5, Fin 3] \<and>
   map bestGeometricPath
     (initial_best #
      solve_rounds (initial_best :: nat best_path_state)
        [(Some (Fin 5, 1), None), (Some (Fin 7, 2), Some (Fin 9, 3)), (Some (Fin 3, 4), None)])
     = [None, Some 1, Some 1, Some 4] \<and>
   \<not> cost_less (Fin 5) (Fin 3)"
proof -
  let ?rounds = "[(Some (Fin 5, 1), None), (Some (Fin 7, 2), Some (Fin 9, 3)), (Some (Fin 3, 4), None)]
    :: ((cost \<times> nat) option \<times> (cost \<times> nat) option) list"
  let ?sts = "initial_best # solve_rounds (initial_best :: nat best_path_state) ?rounds"
  have c: "map bestGeometricCost ?sts = [PosInf, Fin 5, Fin 5, Fin 3]"
    and p: "map bestGeometricPath ?sts = [None, Some 1, Some 1, Some 4]"
    by (simp_all add: initial_best_def round_update_def update_geometric_def update_control_def)
  from best_cost_never_rises[of ?rounds initial_best, THEN conjunct1, rule_format, of 1 3]
  have "\<not> cost_less (bestGeometricCost (?sts ! 1)) (bestGeometricCost (?sts ! 3))" by simp
  moreover have "bestGeometricCost (?sts ! 1) = Fin 5" "bestGeometricCost (?sts ! 3) = Fin 3"
    by (simp_all add: initial_best_def round_update_def update_geometric_def update_control_def)
  ultimately show ?thesis using c p by simp
qed

section \<open>Expansion of the geometric graph: the claim\<close>












section \<open>Expansion of the control graph: the claim\<close>

lemma simulate_length: "length (simulate par c x k) = k"
  by (induction k arbitrary: x) simp_all

lemma expand_candidate_simulated:
  assumes inv: "edges_simulated par gr"
  shows "edges_simulated par (expand_candidate par cand gr)"
proof (cases "feasible par gr cand")
  case False
  with inv show ?thesis by (simp add: expand_candidate_def)
next
  case True
  let ?n = "num_vertices gr"
  let ?x0 = "state (vertices gr ! source cand)"
  let ?traj = "simulate par (drawn_control cand) ?x0 (unat (steps cand))"
  let ?v = "(new_vertex ?n (last ?traj))
      \<lparr>control := Some (drawn_control cand), control_duration := steps cand\<rparr>"
  from True have src: "source cand < ?n" and st: "steps cand \<noteq> 0"
    and valid: "list_all (stateValid par) ?traj"
    by (simp_all add: feasible_def)
  have ne: "?traj \<noteq> []"
  proof -
    have "unat (steps cand) \<noteq> 0" using st by (simp add: unat_eq_0)
    then have "length ?traj \<noteq> 0" by (simp add: simulate_length)
    then show ?thesis by auto
  qed
  have key: "ekey (source cand) ?n = (source cand, ?n)" using src by (simp add: ekey_def)
  have none: "edge_weight gr (source cand, ?n) = None"
  proof (rule ccontr)
    assume "edge_weight gr (source cand, ?n) \<noteq> None"
    from inv[unfolded edges_simulated_def, rule_format, OF this] show False by simp
  qed
  have eq: "expand_candidate par cand gr =
      \<lparr>vertices = vertices gr @ [?v],
       edge_weight = (edge_weight gr)((source cand, ?n) := Some (edgeCost par ?x0 (last ?traj)))\<rparr>"
    using True none key by (simp add: expand_candidate_def Let_def add_edge_def add_vertex_def)
  show ?thesis
    unfolding eq edges_simulated_def
  proof (intro allI impI)
    fix a b
    let ?gr' = "\<lparr>vertices = vertices gr @ [?v],
       edge_weight = (edge_weight gr)((source cand, ?n) := Some (edgeCost par ?x0 (last ?traj)))\<rparr>"
    assume e: "edge_weight ?gr' (a, b) \<noteq> None"
    show "a < b \<and> b < num_vertices ?gr' \<and>
        (\<exists>c. control (vertices ?gr' ! b) = Some c \<and>
           simulate par c (state (vertices ?gr' ! a)) (unat (control_duration (vertices ?gr' ! b))) \<noteq> [] \<and>
           list_all (stateValid par)
             (simulate par c (state (vertices ?gr' ! a)) (unat (control_duration (vertices ?gr' ! b)))) \<and>
           state (vertices ?gr' ! b) =
             last (simulate par c (state (vertices ?gr' ! a)) (unat (control_duration (vertices ?gr' ! b)))))"
    proof (cases "(a, b) = (source cand, ?n)")
      case True
      then have ab: "a = source cand" "b = ?n" by simp_all
      have va: "vertices ?gr' ! a = vertices gr ! source cand"
        using src ab by (simp add: nth_append num_vertices_def)
      have vb: "vertices ?gr' ! b = ?v" using ab by (simp add: num_vertices_def)
      show ?thesis
        unfolding va vb using ab src ne valid
        by (simp add: num_vertices_def new_vertex_def)
    next
      case False
      with e have old: "edge_weight gr (a, b) \<noteq> None" by (auto split: if_splits)
      note o = inv[unfolded edges_simulated_def, rule_format, OF old]
      then have ab: "a < b" "b < ?n" by simp_all
      have va: "vertices ?gr' ! a = vertices gr ! a" and vb: "vertices ?gr' ! b = vertices gr ! b"
        using ab by (simp_all add: nth_append num_vertices_def)
      show ?thesis
        unfolding va vb using o by (simp add: num_vertices_def)
    qed
  qed
qed

lemma expandControlGraph_simulated:
  "edges_simulated par gr \<Longrightarrow> edges_simulated par (expandControlGraph par cands gr)"
proof (induction cands arbitrary: gr)
  case Nil
  then show ?case by (simp add: expandControlGraph_def)
next
  case (Cons cand cands)
  from Cons.IH[OF expand_candidate_simulated[OF Cons.prems, of cand]]
  show ?case by (simp add: expandControlGraph_def)
qed

text \<open>
  Claim C3. The invariant of the control graph is kept by the expansion: every edge of the
  graph carries, at its later end, the control and the duration whose forward simulation
  from the state of its earlier end passed the validity check at every step and at its
  end point, which is the state of the later end. A candidate whose simulation fails the
  check leaves the graph unchanged.
\<close>

theorem control_edges_simulated:
  assumes "edges_simulated par gr"
  shows "edges_simulated par (expandControlGraph par cands gr) \<and>
    (\<not> feasible par gr cand \<longrightarrow> expand_candidate par cand gr = gr)"
  using expandControlGraph_simulated[OF assms, of cands]
  by (simp add: expand_candidate_def)

theorem control_edges_simulated_witness:
  "edges_simulated lane_params lane_start \<and>
   edges_simulated lane_params
     (expandControlGraph lane_params
        [\<lparr>source = 0, drawn_control = 3, steps = 2\<rparr>, \<lparr>source = 1, drawn_control = 2, steps = 3\<rparr>,
         \<lparr>source = 1, drawn_control = 1, steps = 2\<rparr>] lane_start) \<and>
   map state (vertices (expandControlGraph lane_params
        [\<lparr>source = 0, drawn_control = 3, steps = 2\<rparr>, \<lparr>source = 1, drawn_control = 2, steps = 3\<rparr>,
         \<lparr>source = 1, drawn_control = 1, steps = 2\<rparr>] lane_start)) = [0, 6, 8]"
proof -
  have h: "edges_simulated lane_params lane_start"
    by (simp add: edges_simulated_def lane_start_def)
  have s2: "simulate par c x 2 = [statePropagator par x c (stepSize par),
      statePropagator par (statePropagator par x c (stepSize par)) c (stepSize par)]"
    for par :: "(int, int) control_params" and c x
    by (simp add: numeral_2_eq_2)
  have s3: "simulate par c x 3 = [statePropagator par x c (stepSize par),
      statePropagator par (statePropagator par x c (stepSize par)) c (stepSize par),
      statePropagator par (statePropagator par (statePropagator par x c (stepSize par)) c (stepSize par))
        c (stepSize par)]"
    for par :: "(int, int) control_params" and c x
    by (simp add: numeral_3_eq_3)
  have v: "map state (vertices (expandControlGraph lane_params
        [\<lparr>source = 0, drawn_control = 3, steps = 2\<rparr>, \<lparr>source = 1, drawn_control = 2, steps = 3\<rparr>,
         \<lparr>source = 1, drawn_control = 1, steps = 2\<rparr>] lane_start)) = [0, 6, 8]"
    by (simp add: expandControlGraph_def expand_candidate_def feasible_def lane_params_def
        lane_start_def num_vertices_def add_vertex_def add_edge_def new_vertex_def Let_def s2 s3)
  from control_edges_simulated[OF h] h v show ?thesis by blast
qed

end
